theory Spec2Isabelle
  imports Main "HOL-Library.Multiset" "HOL-Library.Char_ord" "HOL-Library.List_Lexorder"
begin

section \<open>Line parser\<close>

subsection \<open>Character classes of the pattern\<close>

text \<open>
  A line is a \<open>string\<close>; a \<open>char\<close> stands for the code point of the same number
  (U+0000 to U+00FF). In that range the whitespace code points of a \<open>str\<close> pattern are
  TAB, LF, VT, FF, CR, FS, GS, RS, US, SPACE, NEL and NBSP, and the decimal digits are
  \<open>0\<close> to \<open>9\<close>.
\<close>

definition is_space :: "char \<Rightarrow> bool" where
  "is_space c = (of_char c \<in> {9, 10, 11, 12, 13, 28, 29, 30, 31, 32, 133, 160 :: nat})"

definition is_digit :: "char \<Rightarrow> bool" where
  "is_digit c = (48 \<le> (of_char c :: nat) \<and> (of_char c :: nat) \<le> 57)"

text \<open>\<open>\S\<close>, \<open>[^\]]\<close> and \<open>\d\<close>.\<close>

datatype cclass = NonSpace | NotRBracket | Digit

fun in_class :: "cclass \<Rightarrow> char \<Rightarrow> bool" where
  "in_class NonSpace c = (\<not> is_space c)"
| "in_class NotRBracket c = (c \<noteq> CHR '']'')"
| "in_class Digit c = is_digit c"

subsection \<open>The pattern and its backtracking matcher\<close>

text \<open>
  The elements \<open>LOG_PATTERN\<close> is built from: a literal character, a greedy \<open>+\<close> over a
  character class, and the same inside a capturing group. The pattern is the sequence of
  its elements; \<open>^\<close> is implied by \<open>match\<close>, and \<open>$\<close> closes the sequence.
\<close>

datatype item = Lit char | Plus cclass | Cap cclass

text \<open>\<open>$\<close> without MULTILINE: the end of the string, or just before a newline that ends it.\<close>

definition at_end :: "string \<Rightarrow> bool" where
  "at_end s = (s = [] \<or> s = [CHR 0x0A])"

text \<open>
  A greedy repetition first takes the longest run and gives characters back one at a time
  while the rest of the pattern fails; it never takes fewer than one.
\<close>

primrec backtrack :: "(nat \<Rightarrow> 'a option) \<Rightarrow> nat \<Rightarrow> 'a option" where
  "backtrack f 0 = None"
| "backtrack f (Suc k) = (case f (Suc k) of Some r \<Rightarrow> Some r | None \<Rightarrow> backtrack f k)"

definition run :: "cclass \<Rightarrow> string \<Rightarrow> nat" where
  "run cls s = length (takeWhile (in_class cls) s)"

primrec matchp :: "item list \<Rightarrow> string \<Rightarrow> string list \<Rightarrow> string list option" where
  "matchp [] s gs = (if at_end s then Some (rev gs) else None)"
| "matchp (it # its) s gs =
     (case it of
        Lit c \<Rightarrow> (case s of [] \<Rightarrow> None | x # xs \<Rightarrow> if x = c then matchp its xs gs else None)
      | Plus cls \<Rightarrow> backtrack (\<lambda>k. matchp its (drop k s) gs) (run cls s)
      | Cap cls \<Rightarrow> backtrack (\<lambda>k. matchp its (drop k s) (take k s # gs)) (run cls s))"

text \<open>
  \<^verbatim>\<open>^(\S+) \S+ \S+ \[([^\]]+)\] "(\S+) (\S+) \S+" (\d+) (\S+)$\<close>
\<close>

definition LOG_PATTERN :: "item list" where
  "LOG_PATTERN =
     [Cap NonSpace, Lit CHR '' '', Plus NonSpace, Lit CHR '' '', Plus NonSpace, Lit CHR '' '',
      Lit CHR ''['', Cap NotRBracket, Lit CHR '']'', Lit CHR '' '',
      Lit CHR 0x22, Cap NonSpace, Lit CHR '' '', Cap NonSpace, Lit CHR '' '', Plus NonSpace,
      Lit CHR 0x22, Lit CHR '' '', Cap Digit, Lit CHR '' '', Cap NonSpace]"

subsection \<open>Conversion of the status text\<close>

datatype error = ValueError | IndexError | OperationalError string | OverflowError

definition digit_val :: "char \<Rightarrow> nat" where
  "digit_val c = of_char c - 48"

text \<open>
  \<open>int(s)\<close> on a \<open>str\<close>: surrounding whitespace is dropped, one sign is allowed, and the
  digits may be separated by single underscores; anything else is a \<open>ValueError\<close>. The
  whitespace \<open>int\<close> drops is TAB, LF, VT, FF, CR, SPACE, NEL and NBSP. Integers are
  unbounded, but a text of more digits than the interpreter's limit, 4300 unless it is
  reconfigured, is refused with a \<open>ValueError\<close>; signs, whitespace and underscores do not
  count.
\<close>

definition is_int_space :: "char \<Rightarrow> bool" where
  "is_int_space c = (of_char c \<in> {9, 10, 11, 12, 13, 32, 133, 160 :: nat})"

definition int_max_str_digits :: nat where
  "int_max_str_digits = 4300"

fun valid_body :: "string \<Rightarrow> bool" where
  "valid_body [] = False"
| "valid_body [c] = is_digit c"
| "valid_body (c # d # cs) =
     (is_digit c \<and> (if d = CHR ''_'' then valid_body cs else valid_body (d # cs)))"

definition body_val :: "string \<Rightarrow> nat" where
  "body_val s = foldl (\<lambda>acc c. if c = CHR ''_'' then acc else 10 * acc + digit_val c) 0 s"

definition count_digits :: "string \<Rightarrow> nat" where
  "count_digits s = length (filter (\<lambda>c. c \<noteq> CHR ''_'') s)"

definition int_body :: "string \<Rightarrow> error + nat" where
  "int_body s =
     (if \<not> valid_body s then Inl ValueError
      else if int_max_str_digits < count_digits s then Inl ValueError
      else Inr (body_val s))"

definition strip :: "string \<Rightarrow> string" where
  "strip s = rev (dropWhile is_int_space (rev (dropWhile is_int_space s)))"

definition py_int :: "string \<Rightarrow> error + int" where
  "py_int s =
     (case strip s of
        [] \<Rightarrow> Inl ValueError
      | c # cs \<Rightarrow>
          if c = CHR ''-'' then (case int_body cs of Inl e \<Rightarrow> Inl e | Inr n \<Rightarrow> Inr (- int n))
          else if c = CHR ''+'' then (case int_body cs of Inl e \<Rightarrow> Inl e | Inr n \<Rightarrow> Inr (int n))
          else (case int_body (c # cs) of Inl e \<Rightarrow> Inl e | Inr n \<Rightarrow> Inr (int n)))"

subsection \<open>\<open>parse_log_line\<close>\<close>

type_synonym parsed_record = "string \<times> string \<times> string \<times> string \<times> int"

text \<open>\<open>match.group(n)\<close> for \<open>n \<ge> 1\<close>: an \<open>IndexError\<close> when the pattern has no such group.\<close>

definition group :: "string list \<Rightarrow> nat \<Rightarrow> error + string" where
  "group gs n = (if 1 \<le> n \<and> n \<le> length gs then Inr (gs ! (n - 1)) else Inl IndexError)"

definition parse_log_line :: "string \<Rightarrow> error + parsed_record option" where
  "parse_log_line line =
     (case matchp LOG_PATTERN line [] of
        None \<Rightarrow> Inr None
      | Some gs \<Rightarrow>
          (case group gs 1 of Inl e \<Rightarrow> Inl e | Inr g1 \<Rightarrow>
          (case group gs 2 of Inl e \<Rightarrow> Inl e | Inr g2 \<Rightarrow>
          (case group gs 3 of Inl e \<Rightarrow> Inl e | Inr g3 \<Rightarrow>
          (case group gs 4 of Inl e \<Rightarrow> Inl e | Inr g4 \<Rightarrow>
          (case group gs 5 of Inl e \<Rightarrow> Inl e | Inr g5 \<Rightarrow>
          (case py_int g5 of Inl e \<Rightarrow> Inl e | Inr n \<Rightarrow>
             Inr (Some (g1, g2, g3, g4, n)))))))))"

subsection \<open>The wire format, as the specification words it\<close>

text \<open>
  \<^verbatim>\<open><address> <dash-field> <dash-field> [<timestamp-text>] "<method> <path> <protocol>" <status-digits> <size-field>\<close>:
  fields separated by single spaces, every field a non-empty run of non-whitespace
  characters, except the timestamp (non-empty, any character but \<open>]\<close>) and the status
  (non-empty, decimal digits). One newline may end the line.
\<close>

definition token :: "string \<Rightarrow> bool" where
  "token t = (t \<noteq> [] \<and> (\<forall>c\<in>set t. \<not> is_space c))"

definition digits :: "string \<Rightarrow> bool" where
  "digits t = (t \<noteq> [] \<and> (\<forall>c\<in>set t. is_digit c))"

definition stamp :: "string \<Rightarrow> bool" where
  "stamp t = (t \<noteq> [] \<and> CHR '']'' \<notin> set t)"

type_synonym field = string

definition wire_format ::
  "string \<Rightarrow> field \<Rightarrow> field \<Rightarrow> field \<Rightarrow> field \<Rightarrow> field \<Rightarrow> field \<Rightarrow> bool" where
  "wire_format line a ts m p st sz =
     (\<exists>u1 u2 pr nl.
        line = a @ '' '' @ u1 @ '' '' @ u2 @ '' ['' @ ts @ ''] '' @ [CHR 0x22] @ m @ '' '' @ p @
               '' '' @ pr @ [CHR 0x22] @ '' '' @ st @ '' '' @ sz @ nl \<and>
        token a \<and> token u1 \<and> token u2 \<and> stamp ts \<and> token m \<and> token p \<and> token pr \<and>
        digits st \<and> token sz \<and> (nl = [] \<or> nl = [CHR 0x0A]))"

text \<open>The line made of given fields.\<close>

definition log_line ::
  "field \<Rightarrow> field \<Rightarrow> field \<Rightarrow> field \<Rightarrow> field \<Rightarrow> field \<Rightarrow> field \<Rightarrow> field \<Rightarrow> field \<Rightarrow>
   string \<Rightarrow> string" where
  "log_line a u1 u2 ts m p pr st sz nl =
     a @ '' '' @ u1 @ '' '' @ u2 @ '' ['' @ ts @ ''] '' @ [CHR 0x22] @ m @ '' '' @ p @
     '' '' @ pr @ [CHR 0x22] @ '' '' @ st @ '' '' @ sz @ nl"

text \<open>The value of a run of decimal digits.\<close>

definition decimal :: "string \<Rightarrow> nat" where
  "decimal s = foldl (\<lambda>n c. 10 * n + digit_val c) 0 s"


section \<open>Parallel parse coordinator\<close>

text \<open>
  \<open>pool.map(func, iterable)\<close> cuts the list into chunks, hands every chunk to some worker,
  which maps \<open>func\<close> over it, and puts the chunk results back in the order of the input.
  The chunk size is the quotient of the length by four times the number of workers, rounded
  up; an empty list gives no chunk at all.
\<close>

definition chunksize :: "nat \<Rightarrow> nat \<Rightarrow> nat" where
  "chunksize num_workers len =
     (if len = 0 then 0
      else (let q = len div (num_workers * 4); extra = len mod (num_workers * 4)
            in if extra \<noteq> 0 then q + 1 else q))"

function get_tasks :: "nat \<Rightarrow> 'a list \<Rightarrow> 'a list list" where
  "get_tasks n xs =
     (if n = 0 \<or> xs = [] then [] else take n xs # get_tasks n (drop n xs))"
  by pat_completeness auto
termination
  by (relation "measure (\<lambda>(n, xs). length xs)") auto

declare get_tasks.simps [simp del]

text \<open>A worker runs one chunk; an exception of \<open>func\<close> ends the chunk with that exception.\<close>

fun mapstar :: "('a \<Rightarrow> error + 'b) \<Rightarrow> 'a list \<Rightarrow> error + 'b list" where
  "mapstar f [] = Inr []"
| "mapstar f (x # xs) =
     (case f x of
        Inl e \<Rightarrow> Inl e
      | Inr y \<Rightarrow> (case mapstar f xs of Inl e \<Rightarrow> Inl e | Inr ys \<Rightarrow> Inr (y # ys)))"

text \<open>
  The results of the chunks, joined in chunk order. A failed chunk makes the whole call
  raise; when several fail, the first in chunk order is taken here.
\<close>

fun join_results :: "(error + 'b list) list \<Rightarrow> error + 'b list" where
  "join_results [] = Inr []"
| "join_results (r # rs) =
     (case r of
        Inl e \<Rightarrow> Inl e
      | Inr ys \<Rightarrow> (case join_results rs of Inl e \<Rightarrow> Inl e | Inr zs \<Rightarrow> Inr (ys @ zs)))"

definition pool_map :: "nat \<Rightarrow> ('a \<Rightarrow> error + 'b) \<Rightarrow> 'a list \<Rightarrow> error + 'b list" where
  "pool_map num_workers f xs =
     join_results (map (mapstar f) (get_tasks (chunksize num_workers (length xs)) xs))"

text \<open>\<open>list(filter(None, results))\<close>: \<open>None\<close> is dropped, a five-tuple is always kept.\<close>

fun filter_None :: "'a option list \<Rightarrow> 'a list" where
  "filter_None [] = []"
| "filter_None (None # rs) = filter_None rs"
| "filter_None (Some r # rs) = r # filter_None rs"

text \<open>
  The file system gives, for a path, the list \<open>readlines()\<close> returns, or nothing when the
  file does not exist. \<open>num_cores\<close> is the value of \<open>mp.cpu_count()\<close>; a pool of no workers
  is refused with a \<open>ValueError\<close>. Console output is left out.
\<close>

definition process_log_data_parallel ::
  "(string \<Rightarrow> string list option) \<Rightarrow> nat \<Rightarrow> string \<Rightarrow> error + parsed_record list" where
  "process_log_data_parallel fs num_cores file_path =
     (case fs file_path of
        None \<Rightarrow> Inr []
      | Some log_lines \<Rightarrow>
          if num_cores < 1 then Inl ValueError
          else (case pool_map num_cores parse_log_line log_lines of
                  Inl e \<Rightarrow> Inl e
                | Inr results \<Rightarrow> Inr (filter_None results)))"

text \<open>The sequential reference: the parser applied to each line in turn.\<close>

definition parse_sequentially :: "string list \<Rightarrow> error + parsed_record list" where
  "parse_sequentially log_lines =
     (case mapstar parse_log_line log_lines of
        Inl e \<Rightarrow> Inl e
      | Inr results \<Rightarrow> Inr (filter_None results))"

text \<open>The record of a line, when the parser returns one.\<close>

definition parsed :: "string \<Rightarrow> parsed_record option" where
  "parsed line = (case parse_log_line line of Inr r \<Rightarrow> r | Inl e \<Rightarrow> None)"

definition well_formed :: "string \<Rightarrow> bool" where
  "well_formed line = (\<exists>a ts m p st sz. wire_format line a ts m p st sz)"

text \<open>A line in the wire format whose status has more digits than \<open>int\<close> converts.\<close>

definition overlong_status :: "string \<Rightarrow> bool" where
  "overlong_status line =
     (\<exists>a ts m p st sz. wire_format line a ts m p st sz \<and> int_max_str_digits < length st)"

text \<open>A file system with one file.\<close>

definition single_file :: "string \<Rightarrow> string list \<Rightarrow> string \<Rightarrow> string list option" where
  "single_file path log_lines = (\<lambda>p. if p = path then Some log_lines else None)"

section \<open>Store\<close>

text \<open>
  The database file: the names of its tables, its indexes (name, table, column), the rows of
  \<open>Log_Entries\<close> in insertion order, and the highest \<open>LogID\<close> given out so far (the
  \<open>AUTOINCREMENT\<close> counter). A table named \<open>Log_Entries\<close> has the columns of the
  \<open>CREATE TABLE\<close> statement. A connection is modelled by the store it is open on.
\<close>

record row =
  LogID :: nat
  IP_Address :: string
  Timestamp :: string
  Method :: string
  URL :: string
  Status_Code :: int

record store =
  tables :: "string list"
  indexes :: "(string \<times> string \<times> string) list"
  entries :: "row list"
  autoincrement :: nat

definition empty_store :: store where
  "empty_store = \<lparr>tables = [], indexes = [], entries = [], autoincrement = 0\<rparr>"

text \<open>
  \<open>CREATE TABLE IF NOT EXISTS t\<close>: nothing happens when a table \<open>t\<close> exists; an index of
  that name is an error; otherwise the table is added.
\<close>

definition create_table_if_not_exists :: "string \<Rightarrow> store \<Rightarrow> error + store" where
  "create_table_if_not_exists t s =
     (if t \<in> set (tables s) then Inr s
      else if t \<in> set (map fst (indexes s))
        then Inl (OperationalError (''there is already an index named '' @ t))
      else Inr (s\<lparr>tables := tables s @ [t]\<rparr>))"

text \<open>
  \<open>CREATE INDEX IF NOT EXISTS i ON t (c)\<close>: the table must exist; a table named \<open>i\<close> is
  an error; nothing happens when an index \<open>i\<close> exists; otherwise the index is added.
\<close>

definition create_index_if_not_exists ::
  "string \<Rightarrow> string \<Rightarrow> string \<Rightarrow> store \<Rightarrow> error + store" where
  "create_index_if_not_exists i t c s =
     (if t \<notin> set (tables s) then Inl (OperationalError (''no such table: main.'' @ t))
      else if i \<in> set (tables s)
        then Inl (OperationalError (''there is already a table named '' @ i))
      else if i \<in> set (map fst (indexes s)) then Inr s
      else Inr (s\<lparr>indexes := indexes s @ [(i, t, c)]\<rparr>))"

definition setup_database :: "store \<Rightarrow> error + store" where
  "setup_database db =
     (case create_table_if_not_exists ''Log_Entries'' db of
        Inl e \<Rightarrow> Inl e
      | Inr s \<Rightarrow> create_index_if_not_exists ''idx_ip'' ''Log_Entries'' ''IP_Address'' s)"

text \<open>
  One \<open>INSERT\<close> of \<open>executemany\<close>: the status must fit a 64-bit signed integer, the new
  row gets the next \<open>LogID\<close>.
\<close>

definition insert_row :: "store \<Rightarrow> parsed_record \<Rightarrow> error + store" where
  "insert_row s rec =
     (case rec of (ip, ts, m, url, status) \<Rightarrow>
        if status < - (2 ^ 63) \<or> 2 ^ 63 \<le> status then Inl OverflowError
        else Inr (s\<lparr>entries := entries s @
                       [\<lparr>LogID = autoincrement s + 1, IP_Address = ip, Timestamp = ts,
                         Method = m, URL = url, Status_Code = status\<rparr>],
                    autoincrement := autoincrement s + 1\<rparr>))"

text \<open>The range of a stored \<open>INTEGER\<close>.\<close>

definition fits_int64 :: "parsed_record \<Rightarrow> bool" where
  "fits_int64 rec = (case rec of (ip, ts, m, url, status) \<Rightarrow> - (2 ^ 63) \<le> status \<and> status < 2 ^ 63)"

fun executemany :: "store \<Rightarrow> parsed_record list \<Rightarrow> error + store" where
  "executemany s [] = Inr s"
| "executemany s (rec # recs) =
     (case insert_row s rec of Inl e \<Rightarrow> Inl e | Inr s' \<Rightarrow> executemany s' recs)"

text \<open>
  The rows become visible with the \<open>commit\<close> that follows \<open>executemany\<close>; an exception
  leaves before the commit, so the result is either the store with all rows or an error.
\<close>

definition bulk_load_data :: "store \<Rightarrow> parsed_record list \<Rightarrow> error + store" where
  "bulk_load_data conn parsed_data =
     (if ''Log_Entries'' \<notin> set (tables conn)
        then Inl (OperationalError ''no such table: Log_Entries'')
      else executemany conn parsed_data)"

section \<open>Aggregation query\<close>

text \<open>
  \<^verbatim>\<open>SELECT IP_Address, COUNT(IP_Address) as RequestCount FROM Log_Entries
  GROUP BY IP_Address ORDER BY RequestCount DESC LIMIT 10\<close>.
  The column is \<open>NOT NULL\<close>, so the count of a group is its number of rows. The groups
  are read off the index on \<open>IP_Address\<close>, in the byte order of the addresses, and the
  sort by count keeps that order among groups of equal count.
\<close>

definition group_keys :: "row list \<Rightarrow> string list" where
  "group_keys rs = sort (remdups (map IP_Address rs))"

definition request_count :: "row list \<Rightarrow> string \<Rightarrow> nat" where
  "request_count rs ip = length (filter (\<lambda>r. IP_Address r = ip) rs)"

definition group_by_ip :: "row list \<Rightarrow> (string \<times> nat) list" where
  "group_by_ip rs = map (\<lambda>ip. (ip, request_count rs ip)) (group_keys rs)"

definition order_by_count_desc :: "(string \<times> nat) list \<Rightarrow> (string \<times> nat) list" where
  "order_by_count_desc gs = sort_key (\<lambda>g. - int (snd g)) gs"

definition top_ips_query :: "store \<Rightarrow> error + (string \<times> nat) list" where
  "top_ips_query conn =
     (if ''Log_Entries'' \<notin> set (tables conn)
        then Inl (OperationalError ''no such table: Log_Entries'')
      else Inr (take 10 (order_by_count_desc (group_by_ip (entries conn)))))"

text \<open>\<open>str(n)\<close> for a count.\<close>

fun str_nat :: "nat \<Rightarrow> string" where
  "str_nat n =
     (if n < 10 then [char_of (48 + n)] else str_nat (n div 10) @ [char_of (48 + n mod 10)])"

text \<open>
  \<open>run_optimized_analysis\<close> prints and returns nothing. The model returns the printed
  lines (one per \<open>print\<close>, without the final newline) and the outcome: \<open>Inr ()\<close> for a
  normal return. The text of the elapsed time is a parameter. Only
  \<open>sqlite3.OperationalError\<close> is caught.
\<close>

definition run_optimized_analysis :: "string \<Rightarrow> store \<Rightarrow> string list \<times> (error + unit)" where
  "run_optimized_analysis elapsed conn =
     (let header = [CHR 0x0A] @ ''--- Running Optimized Analysis (Algorithms) ---'' in
      case top_ips_query conn of
        Inr top_ips \<Rightarrow>
          ([header,
            ''Analysis Time: '' @ elapsed @ '' seconds'',
            [CHR 0x0A] @ ''TOP 10 MOST FREQUENT IP ADDRESSES:''] @
           map (\<lambda>(ip, count). ''- '' @ ip @ '': '' @ str_nat count @ '' requests'') top_ips,
           Inr ())
      | Inl (OperationalError e) \<Rightarrow>
          ([header,
            ''Error executing analysis query: '' @ e @ ''. Ensure the database is loaded.''],
           Inr ())
      | Inl e \<Rightarrow> ([header], Inl e))"

text \<open>
  The steps of \<open>main\<close> on the store, from an empty database file: set up, bulk-load, run
  the query.
\<close>

definition load_then_aggregate :: "parsed_record list \<Rightarrow> error + (string \<times> nat) list" where
  "load_then_aggregate parsed_data =
     (case setup_database empty_store of
        Inl e \<Rightarrow> Inl e
      | Inr conn \<Rightarrow>
          (case bulk_load_data conn parsed_data of
             Inl e \<Rightarrow> Inl e
           | Inr conn' \<Rightarrow> top_ips_query conn'))"

section \<open>Properties of the line parser\<close>

subsection \<open>Greedy repetition with backtracking\<close>

lemma backtrack_unique:
  assumes "\<And>j r. 1 \<le> j \<Longrightarrow> j \<le> n \<Longrightarrow> f j = Some r \<Longrightarrow> j = k"
  shows "backtrack f n = (if 1 \<le> k \<and> k \<le> n then f k else None)"
  using assms
proof (induction n)
  case 0
  then show ?case by auto
next
  case (Suc n)
  have ih: "backtrack f n = (if 1 \<le> k \<and> k \<le> n then f k else None)"
    using Suc.prems by (intro Suc.IH) auto
  show ?case
  proof (cases "f (Suc n)")
    case None
    then show ?thesis using ih by (auto simp: le_Suc_eq)
  next
    case (Some r)
    then have "Suc n = k" using Suc.prems[of "Suc n" r] by simp
    then show ?thesis using Some by auto
  qed
qed

lemma run_less_in_class: "j < run cls s \<Longrightarrow> in_class cls (s ! j)"
proof -
  assume a: "j < run cls s"
  then have "takeWhile (in_class cls) s ! j = s ! j"
    unfolding run_def by (rule takeWhile_nth)
  moreover have "takeWhile (in_class cls) s ! j \<in> set (takeWhile (in_class cls) s)"
    using a unfolding run_def by (rule nth_mem)
  ultimately show ?thesis using set_takeWhileD by fastforce
qed

lemma run_le_length: "run cls s \<le> length s"
  unfolding run_def by (rule length_takeWhile_le)

lemma run_token:
  assumes "\<forall>x\<in>set tok. in_class cls x" "\<not> in_class cls c"
  shows "run cls (tok @ c # rest) = length tok"
  using assms unfolding run_def by simp

lemma run_token_end:
  assumes "\<forall>x\<in>set tok. in_class cls x"
  shows "run cls tok = length tok"
  using assms unfolding run_def by (simp add: takeWhile_eq_all_conv[THEN iffD2])

lemma drop_is_Cons:
  "drop j s = c # rest \<longleftrightarrow> j < length s \<and> s ! j = c \<and> drop (Suc j) s = rest"
proof
  assume d: "drop j s = c # rest"
  then have lt: "j < length s" by (cases "j < length s") auto
  from Cons_nth_drop_Suc[OF lt] d show "j < length s \<and> s ! j = c \<and> drop (Suc j) s = rest"
    using lt by simp
next
  assume "j < length s \<and> s ! j = c \<and> drop (Suc j) s = rest"
  then show "drop j s = c # rest" using Cons_nth_drop_Suc[of j s] by auto
qed

lemma split_at:
  "j < length s \<Longrightarrow> s = take j s @ s ! j # drop (Suc j) s"
  by (simp add: id_take_nth_drop [symmetric])

lemma take_in_class: "j \<le> run cls s \<Longrightarrow> \<forall>x\<in>set (take j s). in_class cls x"
proof
  fix x assume j: "j \<le> run cls s" and "x \<in> set (take j s)"
  then obtain i where i: "i < length (take j s)" "take j s ! i = x"
    by (auto simp: in_set_conv_nth)
  then have "i < j" "s ! i = x" by auto
  then show "in_class cls x" using j run_less_in_class[of i cls s] by auto
qed

text \<open>A repetition followed by a literal outside its class.\<close>

lemma step_unique:
  assumes nc: "\<not> in_class cls c"
  shows "backtrack (\<lambda>k. matchp (Lit c # its) (drop k s) (g (take k s))) (run cls s) = Some out \<longleftrightarrow>
         (\<exists>tok rest. s = tok @ c # rest \<and> tok \<noteq> [] \<and> (\<forall>x\<in>set tok. in_class cls x) \<and>
             matchp its rest (g tok) = Some out)"
    (is "?L = ?R")
proof -
  let ?f = "\<lambda>k. matchp (Lit c # its) (drop k s) (g (take k s))"
  let ?n = "run cls s"
  have u: "j = ?n" if "1 \<le> j" "j \<le> ?n" "?f j = Some r" for j r
  proof -
    from that(3) obtain rest where d: "drop j s = c # rest"
      by (auto split: list.splits if_splits)
    then have "j < length s" "s ! j = c" by (auto simp: drop_is_Cons)
    with nc have "\<not> j < ?n" using run_less_in_class by blast
    with that(2) show ?thesis by simp
  qed
  have eq: "backtrack ?f ?n = (if 1 \<le> ?n \<and> ?n \<le> ?n then ?f ?n else None)"
    by (rule backtrack_unique) (use u in blast)
  show ?thesis
  proof
    assume ?L
    with eq have n1: "1 \<le> ?n" and fn: "?f ?n = Some out" by (auto split: if_splits)
    from fn obtain rest where d: "drop ?n s = c # rest"
      and m: "matchp its rest (g (take ?n s)) = Some out"
      by (auto split: list.splits if_splits)
    from d have lt: "?n < length s" and sn: "s ! ?n = c" and dr: "drop (Suc ?n) s = rest"
      by (auto simp: drop_is_Cons)
    have 1: "s = take ?n s @ c # rest" using split_at[OF lt] sn dr by simp
    have 2: "take ?n s \<noteq> []" using n1 lt by auto
    have 3: "\<forall>x\<in>set (take ?n s). in_class cls x" by (rule take_in_class) simp
    show ?R
      apply (rule exI[of _ "take ?n s"], rule exI[of _ rest])
      using 1 2 3 m by simp
  next
    assume ?R
    then obtain tok rest where s: "s = tok @ c # rest" and ne: "tok \<noteq> []"
      and cl: "\<forall>x\<in>set tok. in_class cls x" and m: "matchp its rest (g tok) = Some out"
      by blast
    have n: "?n = length tok" unfolding s by (rule run_token[OF cl nc])
    have "?f ?n = Some out" unfolding n using m by (simp add: s)
    moreover have "1 \<le> ?n" using n ne by (cases tok) auto
    ultimately show ?L using eq by simp
  qed
qed

lemma matchp_Plus_Lit:
  assumes "\<not> in_class cls c"
  shows "matchp (Plus cls # Lit c # its) s gs = Some out \<longleftrightarrow>
         (\<exists>tok rest. s = tok @ c # rest \<and> tok \<noteq> [] \<and> (\<forall>x\<in>set tok. in_class cls x) \<and>
             matchp its rest gs = Some out)"
  using step_unique[OF assms, of its s "\<lambda>_. gs" out] by simp

lemma matchp_Cap_Lit:
  assumes "\<not> in_class cls c"
  shows "matchp (Cap cls # Lit c # its) s gs = Some out \<longleftrightarrow>
         (\<exists>tok rest. s = tok @ c # rest \<and> tok \<noteq> [] \<and> (\<forall>x\<in>set tok. in_class cls x) \<and>
             matchp its rest (tok # gs) = Some out)"
  using step_unique[OF assms, of its s "\<lambda>t. t # gs" out] by simp

text \<open>The last group and the end anchor.\<close>

lemma matchp_Cap_end:
  "matchp [Cap NonSpace] s gs = Some out \<longleftrightarrow>
     (\<exists>tok nl. s = tok @ nl \<and> tok \<noteq> [] \<and> (\<forall>x\<in>set tok. in_class NonSpace x) \<and>
        (nl = [] \<or> nl = [CHR 0x0A]) \<and> out = rev (tok # gs))"
    (is "?L = ?R")
proof -
  let ?f = "\<lambda>k. matchp [] (drop k s) (take k s # gs)"
  let ?n = "run NonSpace s"
  have nl: "\<not> in_class NonSpace (CHR 0x0A)" by (simp add: is_space_def)
  have u: "j = ?n" if "1 \<le> j" "j \<le> ?n" "?f j = Some r" for j r
  proof -
    from that(3) have "at_end (drop j s)" by (auto split: if_splits)
    then consider "drop j s = []" | "drop j s = [CHR 0x0A]" by (auto simp: at_end_def)
    then show ?thesis
    proof cases
      case 1
      then have "length s \<le> j" by simp
      with that(2) run_le_length[of NonSpace s] show ?thesis by simp
    next
      case 2
      then have "j < length s" "s ! j = CHR 0x0A" by (auto simp: drop_is_Cons)
      with nl have "\<not> j < ?n" using run_less_in_class by metis
      with that(2) show ?thesis by simp
    qed
  qed
  have eq: "backtrack ?f ?n = (if 1 \<le> ?n \<and> ?n \<le> ?n then ?f ?n else None)"
    by (rule backtrack_unique) (use u in blast)
  show ?thesis
  proof
    assume ?L
    with eq have n1: "1 \<le> ?n" and fn: "?f ?n = Some out" by (auto split: if_splits)
    then have e: "at_end (drop ?n s)" and o: "out = rev (take ?n s # gs)"
      by (auto split: if_splits)
    have 1: "s = take ?n s @ drop ?n s" by simp
    have 2: "take ?n s \<noteq> []" using n1 run_le_length[of NonSpace s] by auto
    have 3: "\<forall>x\<in>set (take ?n s). in_class NonSpace x" by (rule take_in_class) simp
    show ?R
      apply (rule exI[of _ "take ?n s"], rule exI[of _ "drop ?n s"])
      using 1 2 3 e o by (simp add: at_end_def)
  next
    assume ?R
    then obtain tok nl' where s: "s = tok @ nl'" and ne: "tok \<noteq> []"
      and cl: "\<forall>x\<in>set tok. in_class NonSpace x" and e: "nl' = [] \<or> nl' = [CHR 0x0A]"
      and o: "out = rev (tok # gs)"
      by blast
    have n: "?n = length tok"
      using e
    proof
      assume "nl' = []" then show ?thesis using s run_token_end[OF cl] by simp
    next
      assume "nl' = [CHR 0x0A]" then show ?thesis using s run_token[OF cl nl, of "[]"] by simp
    qed
    have "?f ?n = Some out" unfolding n using o e by (auto simp: s at_end_def)
    moreover have "1 \<le> ?n" using n ne by (cases tok) auto
    ultimately show ?L using eq by simp
  qed
qed

text \<open>The protocol token: a repetition followed by a literal of its own class.\<close>

lemma run_stop: "run cls s < length s \<Longrightarrow> \<not> in_class cls (s ! run cls s)"
  unfolding run_def by (rule nth_length_takeWhile)

lemma run_ge:
  assumes "m \<le> length s" "\<And>i. i < m \<Longrightarrow> in_class cls (s ! i)"
  shows "m \<le> run cls s"
proof (rule ccontr)
  assume "\<not> m \<le> run cls s"
  then have lt: "run cls s < m" by simp
  then have "run cls s < length s" using assms(1) by simp
  then have "\<not> in_class cls (s ! run cls s)" by (rule run_stop)
  with assms(2)[OF lt] show False by simp
qed

lemma matchp_Plus_quote:
  assumes ic: "in_class cls q" and nc: "\<not> in_class cls c"
  shows "matchp (Plus cls # Lit q # Lit c # its) s gs = Some out \<longleftrightarrow>
         (\<exists>tok rest. s = tok @ q # c # rest \<and> tok \<noteq> [] \<and> (\<forall>x\<in>set tok. in_class cls x) \<and>
             matchp its rest gs = Some out)"
    (is "?L = ?R")
proof -
  let ?f = "\<lambda>k. matchp (Lit q # Lit c # its) (drop k s) gs"
  let ?n = "run cls s"
  have fj: "?f j = Some r \<longleftrightarrow> (\<exists>rest. drop j s = q # c # rest \<and> matchp its rest gs = Some r)"
    for j r
    by (auto split: list.splits if_splits)
  have u: "j = ?n - 1" if "1 \<le> j" "j \<le> ?n" "?f j = Some r" for j r
  proof -
    from that(3) obtain rest where d: "drop j s = q # c # rest" unfolding fj by blast
    then have j: "j < length s" "s ! j = q" "drop (Suc j) s = c # rest"
      by (auto simp: drop_is_Cons)
    then have j1: "Suc j < length s" "s ! Suc j = c" by (auto simp: drop_is_Cons)
    have a: "\<not> Suc j < ?n" using run_less_in_class[of "Suc j" cls s] j1 nc by auto
    have "in_class cls (s ! i)" if "i < Suc j" for i
    proof (cases "i = j")
      case True then show ?thesis using j ic by simp
    next
      case False
      then have "i < ?n" using that \<open>j \<le> ?n\<close> by simp
      then show ?thesis by (rule run_less_in_class)
    qed
    then have "Suc j \<le> ?n" using j1(1) by (intro run_ge) auto
    with a show ?thesis by simp
  qed
  have eq: "backtrack ?f ?n = (if 1 \<le> ?n - 1 \<and> ?n - 1 \<le> ?n then ?f (?n - 1) else None)"
    by (rule backtrack_unique) (use u in blast)
  show ?thesis
  proof
    assume ?L
    with eq have n1: "1 \<le> ?n - 1" and fn: "?f (?n - 1) = Some out" by (auto split: if_splits)
    from fn obtain rest where d: "drop (?n - 1) s = q # c # rest"
      and m: "matchp its rest gs = Some out" unfolding fj by blast
    have 1: "s = take (?n - 1) s @ q # c # rest"
      unfolding d[symmetric] by simp
    have 2: "take (?n - 1) s \<noteq> []" using n1 run_le_length[of cls s] by auto
    have 3: "\<forall>x\<in>set (take (?n - 1) s). in_class cls x" by (rule take_in_class) simp
    show ?R
      apply (rule exI[of _ "take (?n - 1) s"], rule exI[of _ rest])
      using 1 2 3 m by simp
  next
    assume ?R
    then obtain tok rest where s: "s = tok @ q # c # rest" and ne: "tok \<noteq> []"
      and cl: "\<forall>x\<in>set tok. in_class cls x" and m: "matchp its rest gs = Some out"
      by blast
    have "\<forall>x\<in>set (tok @ [q]). in_class cls x" using cl ic by simp
    from run_token[OF this nc, of rest] have n: "?n = Suc (length tok)" by (simp add: s)
    have "?f (?n - 1) = Some out" unfolding n using m by (simp add: s)
    moreover have "1 \<le> ?n - 1" using n ne by (cases tok) auto
    ultimately show ?L using eq by simp
  qed
qed

lemma matchp_Lit:
  "matchp (Lit c # its) s gs = Some out \<longleftrightarrow> (\<exists>rest. s = c # rest \<and> matchp its rest gs = Some out)"
  by (auto split: list.splits)

lemma sp1: "\<not> in_class NonSpace CHR '' ''" by (simp add: is_space_def)
lemma sp2: "\<not> in_class Digit CHR '' ''" by (simp add: is_digit_def)
lemma sp3: "\<not> in_class NotRBracket CHR '']''" by simp
lemma sp4: "in_class NonSpace (CHR 0x22)" by (simp add: is_space_def)

lemma cap_token:
  "matchp (Cap NonSpace # Lit CHR '' '' # its) s gs = Some out \<longleftrightarrow>
     (\<exists>tok rest. s = tok @ CHR '' '' # rest \<and> token tok \<and> matchp its rest (tok # gs) = Some out)"
  using matchp_Cap_Lit[OF sp1, of its s gs out] by (simp add: token_def)

lemma plus_token:
  "matchp (Plus NonSpace # Lit CHR '' '' # its) s gs = Some out \<longleftrightarrow>
     (\<exists>tok rest. s = tok @ CHR '' '' # rest \<and> token tok \<and> matchp its rest gs = Some out)"
  using matchp_Plus_Lit[OF sp1, of its s gs out] by (simp add: token_def)

lemma cap_digits:
  "matchp (Cap Digit # Lit CHR '' '' # its) s gs = Some out \<longleftrightarrow>
     (\<exists>tok rest. s = tok @ CHR '' '' # rest \<and> digits tok \<and> matchp its rest (tok # gs) = Some out)"
  using matchp_Cap_Lit[OF sp2, of its s gs out] by (simp add: digits_def)

lemma cap_stamp:
  "matchp (Cap NotRBracket # Lit CHR '']'' # its) s gs = Some out \<longleftrightarrow>
     (\<exists>tok rest. s = tok @ CHR '']'' # rest \<and> stamp tok \<and> matchp its rest (tok # gs) = Some out)"
  using matchp_Cap_Lit[OF sp3, of its s gs out] by (auto simp add: stamp_def)

lemma plus_protocol:
  "matchp (Plus NonSpace # Lit (CHR 0x22) # Lit CHR '' '' # its) s gs = Some out \<longleftrightarrow>
     (\<exists>tok rest. s = tok @ CHR 0x22 # CHR '' '' # rest \<and> token tok \<and> matchp its rest gs = Some out)"
  using matchp_Plus_quote[OF sp4 sp1, of its s gs out] by (simp add: token_def)

lemma cap_last:
  "matchp [Cap NonSpace] s gs = Some out \<longleftrightarrow>
     (\<exists>tok nl. s = tok @ nl \<and> token tok \<and> (nl = [] \<or> nl = [CHR 0x0A]) \<and> out = rev (tok # gs))"
  using matchp_Cap_end[of s gs out] by (simp add: token_def)

text \<open>The pattern, from its end to its start.\<close>

lemma tail1:
  "matchp [Cap Digit, Lit CHR '' '', Cap NonSpace] s gs = Some out \<longleftrightarrow>
     (\<exists>st sz nl. s = st @ '' '' @ sz @ nl \<and> digits st \<and> token sz \<and>
        (nl = [] \<or> nl = [CHR 0x0A]) \<and> out = rev (sz # st # gs))"
  unfolding cap_digits cap_last by auto

lemma tail2:
  "matchp [Plus NonSpace, Lit (CHR 0x22), Lit CHR '' '', Cap Digit, Lit CHR '' '', Cap NonSpace] s gs
     = Some out \<longleftrightarrow>
     (\<exists>pr st sz nl. s = pr @ [CHR 0x22] @ '' '' @ st @ '' '' @ sz @ nl \<and> token pr \<and>
        digits st \<and> token sz \<and> (nl = [] \<or> nl = [CHR 0x0A]) \<and> out = rev (sz # st # gs))"
    (is "?L = ?R")
proof
  assume ?L
  then obtain pr rest where s: "s = pr @ CHR 0x22 # CHR '' '' # rest" and pr: "token pr"
    and m: "matchp [Cap Digit, Lit CHR '' '', Cap NonSpace] rest gs = Some out"
    unfolding plus_protocol by blast
  from m obtain st sz nl where r: "rest = st @ '' '' @ sz @ nl" and f: "digits st" "token sz"
    "nl = [] \<or> nl = [CHR 0x0A]" "out = rev (sz # st # gs)"
    unfolding tail1 by blast
  show ?R
    apply (rule exI[of _ pr], rule exI[of _ st], rule exI[of _ sz], rule exI[of _ nl])
    using s pr r f by simp
next
  assume ?R
  then obtain pr st sz nl where s: "s = pr @ [CHR 0x22] @ '' '' @ st @ '' '' @ sz @ nl"
    and pr: "token pr" and f: "digits st" "token sz" "nl = [] \<or> nl = [CHR 0x0A]"
    "out = rev (sz # st # gs)"
    by blast
  have m: "matchp [Cap Digit, Lit CHR '' '', Cap NonSpace] (st @ '' '' @ sz @ nl) gs = Some out"
    unfolding tail1 using f by blast
  have s': "s = pr @ CHR 0x22 # CHR '' '' # (st @ '' '' @ sz @ nl)" using s by simp
  show ?L
    unfolding plus_protocol using s' pr m by blast
qed

lemma tail3:
  "matchp [Cap NonSpace, Lit CHR '' '', Cap NonSpace, Lit CHR '' '',
           Plus NonSpace, Lit (CHR 0x22), Lit CHR '' '', Cap Digit, Lit CHR '' '', Cap NonSpace] s gs
     = Some out \<longleftrightarrow>
     (\<exists>m p pr st sz nl. s = m @ '' '' @ p @ '' '' @ pr @ [CHR 0x22] @ '' '' @ st @ '' '' @ sz @ nl \<and>
        token m \<and> token p \<and> token pr \<and>
        digits st \<and> token sz \<and> (nl = [] \<or> nl = [CHR 0x0A]) \<and> out = rev (sz # st # p # m # gs))"
    (is "?L = ?R")
proof
  assume ?L
  then obtain m r1 where s: "s = m @ CHR '' '' # r1" and m: "token m"
    and m1: "matchp [Cap NonSpace, Lit CHR '' '',
           Plus NonSpace, Lit (CHR 0x22), Lit CHR '' '', Cap Digit, Lit CHR '' '', Cap NonSpace]
           r1 (m # gs) = Some out"
    unfolding cap_token[of "Cap NonSpace # _"] by blast
  from m1 obtain p r2 where r1: "r1 = p @ CHR '' '' # r2" and p: "token p"
    and m2: "matchp [Plus NonSpace, Lit (CHR 0x22), Lit CHR '' '', Cap Digit, Lit CHR '' '',
           Cap NonSpace] r2 (p # m # gs) = Some out"
    unfolding cap_token by blast
  from m2 obtain pr st sz nl where r2: "r2 = pr @ [CHR 0x22] @ '' '' @ st @ '' '' @ sz @ nl"
    and f: "token pr" "digits st" "token sz" "nl = [] \<or> nl = [CHR 0x0A]"
    "out = rev (sz # st # p # m # gs)"
    unfolding tail2 by blast
  show ?R
    apply (rule exI[of _ m], rule exI[of _ p], rule exI[of _ pr], rule exI[of _ st],
        rule exI[of _ sz], rule exI[of _ nl])
    using s m r1 p r2 f by simp
next
  assume ?R
  then obtain m p pr st sz nl where
    s: "s = m @ '' '' @ p @ '' '' @ pr @ [CHR 0x22] @ '' '' @ st @ '' '' @ sz @ nl"
    and m: "token m" and p: "token p" and f: "token pr" "digits st" "token sz"
    "nl = [] \<or> nl = [CHR 0x0A]" "out = rev (sz # st # p # m # gs)"
    by blast
  let ?r2 = "pr @ [CHR 0x22] @ '' '' @ st @ '' '' @ sz @ nl"
  have m2: "matchp [Plus NonSpace, Lit (CHR 0x22), Lit CHR '' '', Cap Digit, Lit CHR '' '',
           Cap NonSpace] ?r2 (p # m # gs) = Some out"
    unfolding tail2 using f by blast
  have m1: "matchp [Cap NonSpace, Lit CHR '' '',
           Plus NonSpace, Lit (CHR 0x22), Lit CHR '' '', Cap Digit, Lit CHR '' '', Cap NonSpace]
           (p @ CHR '' '' # ?r2) (m # gs) = Some out"
    unfolding cap_token using p m2 by blast
  have s': "s = m @ CHR '' '' # (p @ CHR '' '' # ?r2)" using s by simp
  show ?L
    unfolding cap_token[of "Cap NonSpace # _"] using s' m m1 by blast
qed

lemma tail4:
  "matchp [Lit CHR ''['', Cap NotRBracket, Lit CHR '']'', Lit CHR '' '', Lit (CHR 0x22),
           Cap NonSpace, Lit CHR '' '', Cap NonSpace, Lit CHR '' '',
           Plus NonSpace, Lit (CHR 0x22), Lit CHR '' '', Cap Digit, Lit CHR '' '', Cap NonSpace] s gs
     = Some out \<longleftrightarrow>
     (\<exists>ts m p pr st sz nl.
        s = ''['' @ ts @ ''] '' @ [CHR 0x22] @ m @ '' '' @ p @ '' '' @ pr @ [CHR 0x22] @ '' '' @
            st @ '' '' @ sz @ nl \<and>
        stamp ts \<and> token m \<and> token p \<and> token pr \<and>
        digits st \<and> token sz \<and> (nl = [] \<or> nl = [CHR 0x0A]) \<and>
        out = rev (sz # st # p # m # ts # gs))"
    (is "?L = ?R")
proof
  assume ?L
  then obtain r0 where s: "s = CHR ''['' # r0"
    and m0: "matchp [Cap NotRBracket, Lit CHR '']'', Lit CHR '' '', Lit (CHR 0x22),
           Cap NonSpace, Lit CHR '' '', Cap NonSpace, Lit CHR '' '',
           Plus NonSpace, Lit (CHR 0x22), Lit CHR '' '', Cap Digit, Lit CHR '' '', Cap NonSpace]
           r0 gs = Some out"
    unfolding matchp_Lit[of "CHR ''[''"] by blast
  from m0 obtain ts r1 where r0: "r0 = ts @ CHR '']'' # r1" and ts: "stamp ts"
    and m1: "matchp [Lit CHR '' '', Lit (CHR 0x22),
           Cap NonSpace, Lit CHR '' '', Cap NonSpace, Lit CHR '' '',
           Plus NonSpace, Lit (CHR 0x22), Lit CHR '' '', Cap Digit, Lit CHR '' '', Cap NonSpace]
           r1 (ts # gs) = Some out"
    unfolding cap_stamp by blast
  from m1 obtain r2 where r1: "r1 = CHR '' '' # CHR 0x22 # r2"
    and m2: "matchp [Cap NonSpace, Lit CHR '' '', Cap NonSpace, Lit CHR '' '',
           Plus NonSpace, Lit (CHR 0x22), Lit CHR '' '', Cap Digit, Lit CHR '' '', Cap NonSpace]
           r2 (ts # gs) = Some out"
    unfolding matchp_Lit[of "CHR '' ''"] matchp_Lit[of "CHR 0x22" "Cap NonSpace # _"] by blast
  from m2 obtain m p pr st sz nl where
    r2: "r2 = m @ '' '' @ p @ '' '' @ pr @ [CHR 0x22] @ '' '' @ st @ '' '' @ sz @ nl"
    and f: "token m" "token p" "token pr" "digits st" "token sz" "nl = [] \<or> nl = [CHR 0x0A]"
    "out = rev (sz # st # p # m # ts # gs)"
    unfolding tail3 by blast
  show ?R
    apply (rule exI[of _ ts], rule exI[of _ m], rule exI[of _ p], rule exI[of _ pr],
        rule exI[of _ st], rule exI[of _ sz], rule exI[of _ nl])
    using s r0 ts r1 r2 f by simp
next
  assume ?R
  then obtain ts m p pr st sz nl where
    s: "s = ''['' @ ts @ ''] '' @ [CHR 0x22] @ m @ '' '' @ p @ '' '' @ pr @ [CHR 0x22] @ '' '' @
            st @ '' '' @ sz @ nl"
    and ts: "stamp ts"
    and f: "token m" "token p" "token pr" "digits st" "token sz" "nl = [] \<or> nl = [CHR 0x0A]"
    "out = rev (sz # st # p # m # ts # gs)"
    by blast
  let ?r2 = "m @ '' '' @ p @ '' '' @ pr @ [CHR 0x22] @ '' '' @ st @ '' '' @ sz @ nl"
  have m2: "matchp [Cap NonSpace, Lit CHR '' '', Cap NonSpace, Lit CHR '' '',
           Plus NonSpace, Lit (CHR 0x22), Lit CHR '' '', Cap Digit, Lit CHR '' '', Cap NonSpace]
           ?r2 (ts # gs) = Some out"
    unfolding tail3 using f by blast
  have m1: "matchp [Lit CHR '' '', Lit (CHR 0x22),
           Cap NonSpace, Lit CHR '' '', Cap NonSpace, Lit CHR '' '',
           Plus NonSpace, Lit (CHR 0x22), Lit CHR '' '', Cap Digit, Lit CHR '' '', Cap NonSpace]
           (CHR '' '' # CHR 0x22 # ?r2) (ts # gs) = Some out"
    unfolding matchp_Lit[of "CHR '' ''"] matchp_Lit[of "CHR 0x22" "Cap NonSpace # _"]
    using m2 by blast
  have m0: "matchp [Cap NotRBracket, Lit CHR '']'', Lit CHR '' '', Lit (CHR 0x22),
           Cap NonSpace, Lit CHR '' '', Cap NonSpace, Lit CHR '' '',
           Plus NonSpace, Lit (CHR 0x22), Lit CHR '' '', Cap Digit, Lit CHR '' '', Cap NonSpace]
           (ts @ CHR '']'' # CHR '' '' # CHR 0x22 # ?r2) gs = Some out"
    unfolding cap_stamp using ts m1 by blast
  have s': "s = CHR ''['' # (ts @ CHR '']'' # CHR '' '' # CHR 0x22 # ?r2)" using s by simp
  show ?L
    unfolding matchp_Lit[of "CHR ''[''"] using s' m0 by blast
qed

lemma matchp_LOG_PATTERN:
  "matchp LOG_PATTERN line [] = Some out \<longleftrightarrow>
   (\<exists>a ts m p st sz. wire_format line a ts m p st sz \<and> out = [a, ts, m, p, st, sz])"
    (is "?L = ?R")
proof
  assume ?L
  then obtain a r1 where s: "line = a @ CHR '' '' # r1" and a: "token a"
    and m1: "matchp [Plus NonSpace, Lit CHR '' '', Plus NonSpace, Lit CHR '' '',
      Lit CHR ''['', Cap NotRBracket, Lit CHR '']'', Lit CHR '' '',
      Lit CHR 0x22, Cap NonSpace, Lit CHR '' '', Cap NonSpace, Lit CHR '' '', Plus NonSpace,
      Lit CHR 0x22, Lit CHR '' '', Cap Digit, Lit CHR '' '', Cap NonSpace] r1 [a] = Some out"
    unfolding LOG_PATTERN_def cap_token[of "Plus NonSpace # _"] by blast
  from m1 obtain u1 r2 where r1: "r1 = u1 @ CHR '' '' # r2" and u1: "token u1"
    and m2: "matchp [Plus NonSpace, Lit CHR '' '',
      Lit CHR ''['', Cap NotRBracket, Lit CHR '']'', Lit CHR '' '',
      Lit CHR 0x22, Cap NonSpace, Lit CHR '' '', Cap NonSpace, Lit CHR '' '', Plus NonSpace,
      Lit CHR 0x22, Lit CHR '' '', Cap Digit, Lit CHR '' '', Cap NonSpace] r2 [a] = Some out"
    unfolding plus_token[of "Plus NonSpace # _"] by blast
  from m2 obtain u2 r3 where r2: "r2 = u2 @ CHR '' '' # r3" and u2: "token u2"
    and m3: "matchp [Lit CHR ''['', Cap NotRBracket, Lit CHR '']'', Lit CHR '' '',
      Lit CHR 0x22, Cap NonSpace, Lit CHR '' '', Cap NonSpace, Lit CHR '' '', Plus NonSpace,
      Lit CHR 0x22, Lit CHR '' '', Cap Digit, Lit CHR '' '', Cap NonSpace] r3 [a] = Some out"
    unfolding plus_token[of "Lit _ # _"] by blast
  from m3 obtain ts m p pr st sz nl where
    r3: "r3 = ''['' @ ts @ ''] '' @ [CHR 0x22] @ m @ '' '' @ p @ '' '' @ pr @ [CHR 0x22] @ '' '' @
            st @ '' '' @ sz @ nl"
    and f: "stamp ts" "token m" "token p" "token pr" "digits st" "token sz"
    "nl = [] \<or> nl = [CHR 0x0A]"
    and out: "out = rev (sz # st # p # m # ts # [a])"
    unfolding tail4 by blast
  have "wire_format line a ts m p st sz"
    unfolding wire_format_def
    apply (rule exI[of _ u1], rule exI[of _ u2], rule exI[of _ pr], rule exI[of _ nl])
    using s a r1 u1 r2 u2 r3 f by simp
  then show ?R using out by simp
next
  assume ?R
  then obtain a ts m p st sz where w: "wire_format line a ts m p st sz"
    and out: "out = [a, ts, m, p, st, sz]" by blast
  from w obtain u1 u2 pr nl where
    s: "line = a @ '' '' @ u1 @ '' '' @ u2 @ '' ['' @ ts @ ''] '' @ [CHR 0x22] @ m @ '' '' @ p @
               '' '' @ pr @ [CHR 0x22] @ '' '' @ st @ '' '' @ sz @ nl"
    and a: "token a" and u1: "token u1" and u2: "token u2"
    and f: "stamp ts" "token m" "token p" "token pr" "digits st" "token sz"
    "nl = [] \<or> nl = [CHR 0x0A]"
    unfolding wire_format_def by blast
  let ?r3 = "''['' @ ts @ ''] '' @ [CHR 0x22] @ m @ '' '' @ p @ '' '' @ pr @ [CHR 0x22] @ '' '' @
            st @ '' '' @ sz @ nl"
  have o: "out = rev (sz # st # p # m # ts # [a])" using out by simp
  have m3: "matchp [Lit CHR ''['', Cap NotRBracket, Lit CHR '']'', Lit CHR '' '',
      Lit CHR 0x22, Cap NonSpace, Lit CHR '' '', Cap NonSpace, Lit CHR '' '', Plus NonSpace,
      Lit CHR 0x22, Lit CHR '' '', Cap Digit, Lit CHR '' '', Cap NonSpace] ?r3 [a] = Some out"
    unfolding tail4 using f o by blast
  have m2: "matchp [Plus NonSpace, Lit CHR '' '',
      Lit CHR ''['', Cap NotRBracket, Lit CHR '']'', Lit CHR '' '',
      Lit CHR 0x22, Cap NonSpace, Lit CHR '' '', Cap NonSpace, Lit CHR '' '', Plus NonSpace,
      Lit CHR 0x22, Lit CHR '' '', Cap Digit, Lit CHR '' '', Cap NonSpace]
      (u2 @ CHR '' '' # ?r3) [a] = Some out"
    unfolding plus_token[of "Lit _ # _"] using u2 m3 by blast
  have m1: "matchp [Plus NonSpace, Lit CHR '' '', Plus NonSpace, Lit CHR '' '',
      Lit CHR ''['', Cap NotRBracket, Lit CHR '']'', Lit CHR '' '',
      Lit CHR 0x22, Cap NonSpace, Lit CHR '' '', Cap NonSpace, Lit CHR '' '', Plus NonSpace,
      Lit CHR 0x22, Lit CHR '' '', Cap Digit, Lit CHR '' '', Cap NonSpace]
      (u1 @ CHR '' '' # u2 @ CHR '' '' # ?r3) [a] = Some out"
    unfolding plus_token[of "Plus NonSpace # _"] using u1 m2 by blast
  have s': "line = a @ CHR '' '' # (u1 @ CHR '' '' # u2 @ CHR '' '' # ?r3)" using s by simp
  show ?L
    unfolding LOG_PATTERN_def cap_token[of "Plus NonSpace # _"] using s' a m1 by blast
qed

subsection \<open>Conversion of a digit group\<close>

lemma digits_strip: "digits s \<Longrightarrow> strip s = s"
proof -
  assume d: "digits s"
  then have ne: "s \<noteq> []" and all: "\<forall>c\<in>set s. is_digit c" by (auto simp: digits_def)
  have ns: "\<not> is_int_space c" if "is_digit c" for c
    using that by (auto simp: is_digit_def is_int_space_def)
  have "hd s \<in> set s" using ne by simp
  then have 1: "dropWhile is_int_space s = s"
    using all ns by (simp add: dropWhile_eq_self_iff)
  have "hd (rev s) \<in> set s" using ne by (simp add: hd_rev)
  then have 2: "dropWhile is_int_space (rev s) = rev s"
    using all ns by (simp add: dropWhile_eq_self_iff)
  show ?thesis unfolding strip_def 1 2 by simp
qed

lemma valid_body_digits: "s \<noteq> [] \<Longrightarrow> \<forall>c\<in>set s. is_digit c \<Longrightarrow> valid_body s"
proof (induction s rule: valid_body.induct)
  case 1
  then show ?case by simp
next
  case (2 c)
  then show ?case by simp
next
  case (3 c d cs)
  have "d \<noteq> CHR ''_''" using 3(4) by (auto simp: is_digit_def)
  then show ?case using 3 by simp
qed

lemma body_val_digits: "\<forall>c\<in>set s. is_digit c \<Longrightarrow> body_val s = decimal s"
proof -
  assume a: "\<forall>c\<in>set s. is_digit c"
  have "foldl (\<lambda>acc c. if c = CHR ''_'' then acc else 10 * acc + digit_val c) n s
        = foldl (\<lambda>n c. 10 * n + digit_val c) n s" for n
    using a
  proof (induction s arbitrary: n)
    case Nil
    then show ?case by simp
  next
    case (Cons x xs)
    have "x \<noteq> CHR ''_''" using Cons.prems by (auto simp: is_digit_def)
    then show ?case using Cons by simp
  qed
  then show ?thesis by (simp add: body_val_def decimal_def)
qed

lemma count_digits_digits: "\<forall>c\<in>set s. is_digit c \<Longrightarrow> count_digits s = length s"
proof -
  assume a: "\<forall>c\<in>set s. is_digit c"
  have "\<forall>c\<in>set s. c \<noteq> CHR ''_''" using a by (auto simp: is_digit_def)
  then show ?thesis by (simp add: count_digits_def)
qed

lemma int_body_digits:
  "digits s \<Longrightarrow>
     int_body s = (if int_max_str_digits < length s then Inl ValueError else Inr (decimal s))"
  by (simp add: int_body_def digits_def valid_body_digits body_val_digits count_digits_digits)

lemma py_int_digits:
  "digits s \<Longrightarrow>
     py_int s = (if int_max_str_digits < length s then Inl ValueError
                 else Inr (int (decimal s)))"
proof -
  assume d: "digits s"
  then obtain c cs where s: "s = c # cs" by (cases s) (auto simp: digits_def)
  have dc: "is_digit c" using d s by (simp add: digits_def)
  then have sign: "c \<noteq> CHR ''-''" "c \<noteq> CHR ''+''" by (auto simp: is_digit_def)
  have "py_int s = (case int_body s of Inl e \<Rightarrow> Inl e | Inr n \<Rightarrow> Inr (int n))"
    unfolding py_int_def digits_strip[OF d] using s sign by simp
  then show ?thesis by (simp add: int_body_digits[OF d])
qed

lemma parse_wire_format:
  "wire_format line a ts m p st sz \<Longrightarrow>
     parse_log_line line =
       (if int_max_str_digits < length st then Inl ValueError
        else Inr (Some (a, ts, m, p, int (decimal st))))"
proof -
  assume w: "wire_format line a ts m p st sz"
  then have m: "matchp LOG_PATTERN line [] = Some [a, ts, m, p, st, sz]"
    unfolding matchp_LOG_PATTERN by blast
  have d: "digits st" using w unfolding wire_format_def by blast
  show ?thesis
    unfolding parse_log_line_def m by (simp add: group_def py_int_digits[OF d])
qed

lemma parse_no_match:
  "\<not> well_formed line \<Longrightarrow> parse_log_line line = Inr None"
proof -
  assume n: "\<not> well_formed line"
  have "matchp LOG_PATTERN line [] = None"
  proof (cases "matchp LOG_PATTERN line []")
    case None
    then show ?thesis .
  next
    case (Some out)
    then have "\<exists>a ts m p st sz. wire_format line a ts m p st sz"
      unfolding matchp_LOG_PATTERN by blast
    with n show ?thesis by (simp add: well_formed_def)
  qed
  then show ?thesis by (simp add: parse_log_line_def)
qed

lemma example_wire:
  "wire_format ''10.0.0.1 - - [01/Jan/2024:00:00:00 +0000] \"POST /api/data HTTP/1.1\" 404 512''
     ''10.0.0.1'' ''01/Jan/2024:00:00:00 +0000'' ''POST'' ''/api/data'' ''404'' ''512''"
  unfolding wire_format_def
  apply (rule exI[of _ "''-''"], rule exI[of _ "''-''"], rule exI[of _ "''HTTP/1.1''"],
      rule exI[of _ "[]"])
  apply (simp add: token_def digits_def stamp_def is_space_def is_digit_def)
  done

subsection \<open>Outcomes of the parser\<close>

lemma overlong_raises: "overlong_status line \<Longrightarrow> parse_log_line line = Inl ValueError"
  unfolding overlong_status_def using parse_wire_format by fastforce

lemma parse_Some_iff:
  "parse_log_line line = Inr (Some r) \<longleftrightarrow>
     (\<exists>a ts m p st sz. wire_format line a ts m p st sz \<and> length st \<le> int_max_str_digits \<and>
        r = (a, ts, m, p, int (decimal st)))"
proof (cases "well_formed line")
  case False
  then show ?thesis using parse_no_match[OF False] by (auto simp: well_formed_def)
next
  case True
  then obtain a ts m p st sz where w: "wire_format line a ts m p st sz"
    unfolding well_formed_def by blast
  show ?thesis
  proof
    assume l: "parse_log_line line = Inr (Some r)"
    with parse_wire_format[OF w] have "length st \<le> int_max_str_digits"
      and "r = (a, ts, m, p, int (decimal st))"
      by (auto split: if_splits)
    with w show "\<exists>a ts m p st sz. wire_format line a ts m p st sz \<and>
        length st \<le> int_max_str_digits \<and> r = (a, ts, m, p, int (decimal st))"
      by blast
  next
    assume "\<exists>a ts m p st sz. wire_format line a ts m p st sz \<and>
        length st \<le> int_max_str_digits \<and> r = (a, ts, m, p, int (decimal st))"
    then obtain a' ts' m' p' st' sz' where w': "wire_format line a' ts' m' p' st' sz'"
      and l: "length st' \<le> int_max_str_digits" and r: "r = (a', ts', m', p', int (decimal st'))"
      by blast
    show "parse_log_line line = Inr (Some r)"
      using parse_wire_format[OF w'] l r by simp
  qed
qed

lemma parse_None_iff: "parse_log_line line = Inr None \<longleftrightarrow> \<not> well_formed line"
proof
  assume n: "parse_log_line line = Inr None"
  show "\<not> well_formed line"
  proof
    assume "well_formed line"
    then obtain a ts m p st sz where "wire_format line a ts m p st sz"
      unfolding well_formed_def by blast
    from parse_wire_format[OF this] n show False by (simp split: if_splits)
  qed
next
  assume "\<not> well_formed line"
  then show "parse_log_line line = Inr None" by (rule parse_no_match)
qed

lemma parse_raises_iff: "parse_log_line line = Inl e \<longleftrightarrow> e = ValueError \<and> overlong_status line"
proof (cases "well_formed line")
  case False
  then have "\<not> overlong_status line" by (auto simp: well_formed_def overlong_status_def)
  then show ?thesis using parse_no_match[OF False] by simp
next
  case True
  then obtain a ts m p st sz where w: "wire_format line a ts m p st sz"
    unfolding well_formed_def by blast
  show ?thesis
  proof (cases "int_max_str_digits < length st")
    case True
    then have "overlong_status line" using w unfolding overlong_status_def by blast
    then show ?thesis using overlong_raises by auto
  next
    case False
    then have r: "parse_log_line line = Inr (Some (a, ts, m, p, int (decimal st)))"
      using parse_wire_format[OF w] by simp
    have "\<not> overlong_status line"
    proof
      assume "overlong_status line"
      then have "parse_log_line line = Inl ValueError" by (rule overlong_raises)
      with r show False by simp
    qed
    then show ?thesis using r by simp
  qed
qed

lemma parse_returns: "\<not> overlong_status line \<Longrightarrow> parse_log_line line = Inr (parsed line)"
proof -
  assume "\<not> overlong_status line"
  then have "\<forall>e. parse_log_line line \<noteq> Inl e" using parse_raises_iff by blast
  then show ?thesis by (cases "parse_log_line line") (auto simp: parsed_def)
qed

lemma overlong_length: "overlong_status line \<Longrightarrow> int_max_str_digits < length line"
  unfolding overlong_status_def wire_format_def by auto

lemma overlong_well_formed: "overlong_status line \<Longrightarrow> well_formed line"
  unfolding overlong_status_def well_formed_def by blast

subsection \<open>The fields of a line\<close>

lemma split_unique:
  assumes "\<forall>x\<in>set t. P x" "\<forall>x\<in>set t'. P x" "\<not> P c" "\<not> P c'" "t @ c # r = t' @ c' # r'"
  shows "t = t' \<and> r = r'"
proof -
  have "takeWhile P (t @ c # r) = t" using assms(1,3) by (simp add: takeWhile_append2)
  moreover have "takeWhile P (t' @ c' # r') = t'" using assms(2,4) by (simp add: takeWhile_append2)
  ultimately have "t = t'" using assms(5) by simp
  then show ?thesis using assms(5) by simp
qed

lemma token_split:
  assumes "token t" "token t'" "t @ CHR '' '' # r = t' @ CHR '' '' # r'"
  shows "t = t' \<and> r = r'"
proof (rule split_unique[where P = "\<lambda>c. \<not> is_space c"])
  show "\<forall>x\<in>set t. \<not> is_space x" using assms(1) by (simp add: token_def)
  show "\<forall>x\<in>set t'. \<not> is_space x" using assms(2) by (simp add: token_def)
  show "\<not> \<not> is_space CHR '' ''" by (simp add: is_space_def)
  show "\<not> \<not> is_space CHR '' ''" by (simp add: is_space_def)
  show "t @ CHR '' '' # r = t' @ CHR '' '' # r'" by (rule assms(3))
qed

lemma stamp_split:
  assumes "stamp t" "stamp t'" "t @ CHR '']'' # r = t' @ CHR '']'' # r'"
  shows "t = t' \<and> r = r'"
proof (rule split_unique[where P = "\<lambda>c. c \<noteq> CHR '']''"])
  show "\<forall>x\<in>set t. x \<noteq> CHR '']''" using assms(1) by (auto simp add: stamp_def)
  show "\<forall>x\<in>set t'. x \<noteq> CHR '']''" using assms(2) by (auto simp add: stamp_def)
  show "\<not> CHR '']'' \<noteq> CHR '']''" by simp
  show "\<not> CHR '']'' \<noteq> CHR '']''" by simp
  show "t @ CHR '']'' # r = t' @ CHR '']'' # r'" by (rule assms(3))
qed

lemma token_quote: "token t \<Longrightarrow> token (t @ [CHR 0x22])"
  by (simp add: token_def is_space_def)

lemma digits_token: "digits t \<Longrightarrow> token t"
  by (auto simp add: token_def digits_def is_space_def is_digit_def)

text \<open>The fields of a line are determined by the line, up to the status.\<close>

lemma fields_unique:
  assumes t: "token a" "token u1" "token u2" "stamp ts" "token m" "token p" "token pr" "token st"
    and t': "token a'" "token u1'" "token u2'" "stamp ts'" "token m'" "token p'" "token pr'"
      "token st'"
    and eq: "log_line a u1 u2 ts m p pr st sz nl = log_line a' u1' u2' ts' m' p' pr' st' sz' nl'"
  shows "a = a' \<and> ts = ts' \<and> m = m' \<and> p = p' \<and> st = st' \<and> sz @ nl = sz' @ nl'"
proof -
  have e1: "a @ CHR '' '' # (u1 @ CHR '' '' # (u2 @ CHR '' '' # (CHR ''['' # (ts @ CHR '']'' # (CHR '' '' # CHR 0x22 # (m @ CHR '' '' # (p @ CHR '' '' # ((pr @ [CHR 0x22]) @ CHR '' '' # (st @ CHR '' '' # (sz @ nl))))))))))
       = a' @ CHR '' '' # (u1' @ CHR '' '' # (u2' @ CHR '' '' # (CHR ''['' # (ts' @ CHR '']'' # (CHR '' '' # CHR 0x22 # (m' @ CHR '' '' # (p' @ CHR '' '' # ((pr' @ [CHR 0x22]) @ CHR '' '' # (st' @ CHR '' '' # (sz' @ nl'))))))))))"
    using eq by (simp add: log_line_def)
  note s1 = token_split[OF t(1) t'(1) e1]
  note s2 = token_split[OF t(2) t'(2) s1[THEN conjunct2]]
  note s3 = token_split[OF t(3) t'(3) s2[THEN conjunct2]]
  have e4: "ts @ CHR '']'' # (CHR '' '' # CHR 0x22 # (m @ CHR '' '' # (p @ CHR '' '' # ((pr @ [CHR 0x22]) @ CHR '' '' # (st @ CHR '' '' # (sz @ nl))))))
       = ts' @ CHR '']'' # (CHR '' '' # CHR 0x22 # (m' @ CHR '' '' # (p' @ CHR '' '' # ((pr' @ [CHR 0x22]) @ CHR '' '' # (st' @ CHR '' '' # (sz' @ nl'))))))"
    using s3[THEN conjunct2] by simp
  note s4 = stamp_split[OF t(4) t'(4) e4]
  have e5: "m @ CHR '' '' # (p @ CHR '' '' # ((pr @ [CHR 0x22]) @ CHR '' '' # (st @ CHR '' '' # (sz @ nl))))
       = m' @ CHR '' '' # (p' @ CHR '' '' # ((pr' @ [CHR 0x22]) @ CHR '' '' # (st' @ CHR '' '' # (sz' @ nl'))))"
    using s4[THEN conjunct2] by simp
  note s5 = token_split[OF t(5) t'(5) e5]
  note s6 = token_split[OF t(6) t'(6) s5[THEN conjunct2]]
  note s7 = token_split[OF token_quote[OF t(7)] token_quote[OF t'(7)] s6[THEN conjunct2]]
  note s8 = token_split[OF t(8) t'(8) s7[THEN conjunct2]]
  show ?thesis using s1 s4 s5 s6 s8 by blast
qed

lemma wire_format_log_line:
  "wire_format line a ts m p st sz \<longleftrightarrow>
     (\<exists>u1 u2 pr nl. line = log_line a u1 u2 ts m p pr st sz nl \<and>
        token a \<and> token u1 \<and> token u2 \<and> stamp ts \<and> token m \<and> token p \<and> token pr \<and>
        digits st \<and> token sz \<and> (nl = [] \<or> nl = [CHR 0x0A]))"
  unfolding wire_format_def log_line_def ..

lemma nonnumeric_status:
  assumes t: "token a" "token u1" "token u2" "stamp ts" "token m" "token p" "token pr" "token st"
    and nd: "\<not> digits st"
  shows "\<not> well_formed (log_line a u1 u2 ts m p pr st sz nl)"
proof
  assume "well_formed (log_line a u1 u2 ts m p pr st sz nl)"
  then obtain a' ts' m' p' st' sz' u1' u2' pr' nl' where
    eq: "log_line a u1 u2 ts m p pr st sz nl = log_line a' u1' u2' ts' m' p' pr' st' sz' nl'"
    and t': "token a'" "token u1'" "token u2'" "stamp ts'" "token m'" "token p'" "token pr'"
    and d: "digits st'"
    unfolding well_formed_def wire_format_log_line by blast
  from fields_unique[OF t t' digits_token[OF d] eq] have "st = st'" by blast
  with d nd show False by simp
qed

lemma minus_not_digits: "\<not> digits (''-'' @ st)"
  by (simp add: digits_def is_digit_def)

lemma minus_token: "token st \<Longrightarrow> token (''-'' @ st)"
  by (simp add: token_def is_space_def)


subsection \<open>What every line of the wire format has\<close>

lemma well_formed_brackets:
  "well_formed line \<Longrightarrow> CHR ''['' \<in> set line \<and> CHR '']'' \<in> set line"
  unfolding well_formed_def wire_format_def by auto

lemma well_formed_quotes: "well_formed line \<Longrightarrow> 2 \<le> count_list line (CHR 0x22)"
  unfolding well_formed_def wire_format_def by auto

lemma well_formed_spaces: "well_formed line \<Longrightarrow> 8 \<le> count_list line CHR '' ''"
  unfolding well_formed_def wire_format_def by auto

lemma well_formed_nonempty: "well_formed line \<Longrightarrow> line \<noteq> []"
  unfolding well_formed_def wire_format_def token_def by auto

lemma parse_log_line_fields:
  assumes "token a" "token u1" "token u2" "stamp ts" "token m" "token p" "token pr" "token sz"
    "digits st" "nl = [] \<or> nl = [CHR 0x0A]"
  shows "wire_format (log_line a u1 u2 ts m p pr st sz nl) a ts m p st sz"
    and "length st \<le> int_max_str_digits \<Longrightarrow>
           parse_log_line (log_line a u1 u2 ts m p pr st sz nl)
             = Inr (Some (a, ts, m, p, int (decimal st)))"
    and "int_max_str_digits < length st \<Longrightarrow>
           parse_log_line (log_line a u1 u2 ts m p pr st sz nl) = Inl ValueError"
    and "parse_log_line (log_line a u1 u2 ts m p pr (''-'' @ st) sz nl) = Inr None"
proof -
  show w: "wire_format (log_line a u1 u2 ts m p pr st sz nl) a ts m p st sz"
    unfolding wire_format_log_line using assms by blast
  show "length st \<le> int_max_str_digits \<Longrightarrow>
           parse_log_line (log_line a u1 u2 ts m p pr st sz nl)
             = Inr (Some (a, ts, m, p, int (decimal st)))"
    using parse_wire_format[OF w] by simp
  show "int_max_str_digits < length st \<Longrightarrow>
           parse_log_line (log_line a u1 u2 ts m p pr st sz nl) = Inl ValueError"
    using parse_wire_format[OF w] by simp
  have "\<not> well_formed (log_line a u1 u2 ts m p pr (''-'' @ st) sz nl)"
    using assms(1-7) minus_token[OF digits_token[OF assms(9)]] minus_not_digits
    by (rule nonnumeric_status)
  then show "parse_log_line (log_line a u1 u2 ts m p pr (''-'' @ st) sz nl) = Inr None"
    by (rule parse_no_match)
qed

text \<open>Runs of one digit.\<close>

lemma digits_replicate: "0 < n \<Longrightarrow> is_digit c \<Longrightarrow> digits (replicate n c)"
  by (auto simp: digits_def)

lemma decimal_snoc: "decimal (s @ [c]) = 10 * decimal s + digit_val c"
  by (simp add: decimal_def)

lemma decimal_nines: "decimal (replicate n CHR ''9'') = 10 ^ n - 1"
proof (induction n)
  case 0
  then show ?case by (simp add: decimal_def)
next
  case (Suc n)
  have "decimal (replicate (Suc n) CHR ''9'') = decimal (replicate n CHR ''9'' @ [CHR ''9''])"
    by (simp only: replicate_append_same replicate.simps)
  also have "\<dots> = 10 * (10 ^ n - 1) + 9"
    by (simp only: decimal_snoc Suc.IH) (simp add: digit_val_def)
  also have "\<dots> = 10 ^ Suc n - 1"
  proof -
    have "(1::nat) \<le> 10 ^ n" by simp
    then show ?thesis by (simp add: algebra_simps)
  qed
  finally show ?case .
qed

lemma example_tokens:
  "token ''10.0.0.1''" "token ''-''" "token ''-''" "stamp ''01/Jan/2024:00:00:00 +0000''"
  "token ''POST''" "token ''/api/data''" "token ''HTTP/1.1''" "token ''512''"
  by (simp_all add: token_def stamp_def is_space_def)

lemma nl_empty: "([]::string) = [] \<or> ([]::string) = [CHR 0x0A]"
  by simp

section \<open>Claims about the line parser\<close>

text \<open>
  C1, as stated: every line in the wire format would give a record. A line in the wire
  format whose status is a run of 4301 zeros makes \<open>int\<close> raise a \<open>ValueError\<close>.
\<close>

theorem parse_log_line_long_status:
  "wire_format
     (log_line ''10.0.0.1'' ''-'' ''-'' ''01/Jan/2024:00:00:00 +0000'' ''POST'' ''/api/data''
        ''HTTP/1.1'' (replicate 4301 CHR ''0'') ''512'' [])
     ''10.0.0.1'' ''01/Jan/2024:00:00:00 +0000'' ''POST'' ''/api/data''
     (replicate 4301 CHR ''0'') ''512'' \<and>
   parse_log_line
     (log_line ''10.0.0.1'' ''-'' ''-'' ''01/Jan/2024:00:00:00 +0000'' ''POST'' ''/api/data''
        ''HTTP/1.1'' (replicate 4301 CHR ''0'') ''512'' [])
   = Inl ValueError"
proof -
  have d: "digits (replicate 4301 CHR ''0'')"
    by (rule digits_replicate) (simp_all add: is_digit_def)
  have l: "int_max_str_digits < length (replicate 4301 CHR ''0'')"
    by (simp add: int_max_str_digits_def)
  show ?thesis
    using parse_log_line_fields(1)[OF example_tokens d nl_empty]
      parse_log_line_fields(3)[OF example_tokens d nl_empty l]
    by (rule conjI)
qed

text \<open>
  C1, amended. A line in the wire format whose status has at most 4300 digits parses to the
  record of its address, timestamp, method, path and status fields, taken verbatim, the
  status read as a decimal number. The result is a function of the line alone, so parsing a
  line again gives the same record. The scenario line of the specification parses to
  \<open>(10.0.0.1, 01/Jan/2024:00:00:00 +0000, POST, /api/data, 404)\<close>.
\<close>

theorem parse_log_line_well_formed:
  assumes "wire_format line a ts m p st sz" "length st \<le> int_max_str_digits"
  shows "parse_log_line line = Inr (Some (a, ts, m, p, int (decimal st)))"
  using parse_wire_format[OF assms(1)] assms(2) by simp

theorem parse_log_line_scenario:
  "wire_format ''10.0.0.1 - - [01/Jan/2024:00:00:00 +0000] \"POST /api/data HTTP/1.1\" 404 512''
     ''10.0.0.1'' ''01/Jan/2024:00:00:00 +0000'' ''POST'' ''/api/data'' ''404'' ''512'' \<and>
   length ''404'' \<le> int_max_str_digits \<and>
   parse_log_line ''10.0.0.1 - - [01/Jan/2024:00:00:00 +0000] \"POST /api/data HTTP/1.1\" 404 512''
     = Inr (Some (''10.0.0.1'', ''01/Jan/2024:00:00:00 +0000'', ''POST'', ''/api/data'', 404))"
proof -
  have l: "length ''404'' \<le> int_max_str_digits" by (simp add: int_max_str_digits_def)
  show ?thesis
    using parse_log_line_well_formed [OF example_wire l] example_wire l
    by (simp add: decimal_def digit_val_def)
qed

text \<open>
  C9. Whenever the parser returns a record, its status is not negative: the status group
  holds decimal digits only.
\<close>

theorem parse_log_line_status_nonneg:
  assumes "parse_log_line line = Inr (Some (a, ts, m, p, status))"
  shows "0 \<le> status"
  using assms unfolding parse_Some_iff by auto

theorem parse_log_line_status_nonneg_witness:
  "parse_log_line ''192.168.1.1 - - [01/Jan/2024:00:00:00 +0000] \"GET /home HTTP/1.1\" 200 1024''
     = Inr (Some (''192.168.1.1'', ''01/Jan/2024:00:00:00 +0000'', ''GET'', ''/home'', 200)) \<and>
   (0::int) \<le> 200"
proof -
  have h: "parse_log_line
      ''192.168.1.1 - - [01/Jan/2024:00:00:00 +0000] \"GET /home HTTP/1.1\" 200 1024''
     = Inr (Some (''192.168.1.1'', ''01/Jan/2024:00:00:00 +0000'', ''GET'', ''/home'', 200))"
    by code_simp
  show ?thesis using parse_log_line_status_nonneg [OF h] h by simp
qed

text \<open>
  C10, as stated: the parser would return on every string. On a line in the wire format
  whose status is a run of 5000 sevens it raises a \<open>ValueError\<close>.
\<close>

theorem parse_log_line_raises:
  "parse_log_line
     (log_line ''192.168.1.1'' ''-'' ''-'' ''01/Jan/2024:00:00:00 +0000'' ''GET'' ''/home''
        ''HTTP/1.1'' (replicate 5000 CHR ''7'') ''1024'' [CHR 0x0A])
   = Inl ValueError"
proof -
  have t: "token ''192.168.1.1''" "token ''-''" "token ''-''"
    "stamp ''01/Jan/2024:00:00:00 +0000''" "token ''GET''" "token ''/home''" "token ''HTTP/1.1''"
    "token ''1024''"
    by (simp_all add: token_def stamp_def is_space_def)
  have d: "digits (replicate 5000 CHR ''7'')"
    by (rule digits_replicate) (simp_all add: is_digit_def)
  have n: "[CHR 0x0A] = [] \<or> [CHR 0x0A] = [CHR 0x0A]" by simp
  have l: "int_max_str_digits < length (replicate 5000 CHR ''7'')"
    by (simp add: int_max_str_digits_def)
  show ?thesis by (rule parse_log_line_fields(3)[OF t d n l])
qed

text \<open>
  C10, amended. The parser returns, a record or \<open>None\<close>, on every string but the lines in
  the wire format whose status has more than 4300 digits; on those it raises a
  \<open>ValueError\<close>, and it raises nothing else. In particular it returns on every string of
  at most 4300 characters.
\<close>

theorem parse_log_line_outcome:
  "(overlong_status line \<longrightarrow> parse_log_line line = Inl ValueError) \<and>
   (\<not> overlong_status line \<longrightarrow> (\<exists>r. parse_log_line line = Inr r)) \<and>
   (length line \<le> int_max_str_digits \<longrightarrow> (\<exists>r. parse_log_line line = Inr r))"
proof (intro conjI impI)
  assume "overlong_status line"
  then show "parse_log_line line = Inl ValueError" by (rule overlong_raises)
next
  assume "\<not> overlong_status line"
  then show "\<exists>r. parse_log_line line = Inr r" using parse_returns by blast
next
  assume "length line \<le> int_max_str_digits"
  then have "\<not> overlong_status line" using overlong_length[of line] by auto
  then show "\<exists>r. parse_log_line line = Inr r" using parse_returns by blast
qed

theorem parse_log_line_outcome_witness:
  "length ''not a log line'' \<le> int_max_str_digits \<and>
   parse_log_line ''not a log line'' = Inr None"
proof -
  have l: "length ''not a log line'' \<le> int_max_str_digits"
    by (simp add: int_max_str_digits_def)
  from parse_log_line_outcome [of "''not a log line''"] l
  obtain r where r: "parse_log_line ''not a log line'' = Inr r" by blast
  have "\<not> well_formed ''not a log line''"
    using well_formed_brackets[of "''not a log line''"] by auto
  then have "parse_log_line ''not a log line'' = Inr None" by (rule parse_no_match)
  then show ?thesis using l r by simp
qed

text \<open>
  C5. A line that is not in the wire format gives \<open>None\<close>, without an error, and a
  record is only ever returned for a line in the wire format. The empty line, a line
  without brackets, a line without quotes, a line with a status that is not a number and a
  line with a field missing are such lines.
\<close>

theorem parse_log_line_malformed:
  "(\<not> well_formed line \<longrightarrow> parse_log_line line = Inr None) \<and>
   (\<forall>r. parse_log_line line = Inr (Some r) \<longrightarrow> well_formed line)"
  using parse_None_iff[of line] parse_Some_iff[of line] by (auto simp: well_formed_def)

theorem parse_log_line_malformed_witness:
  "(\<not> well_formed '''' \<and> parse_log_line '''' = Inr None) \<and>
   (\<not> well_formed ''10.0.0.1 - - 01/Jan/2024:00:00:00 \"GET /home HTTP/1.1\" 200 1024'' \<and>
    parse_log_line ''10.0.0.1 - - 01/Jan/2024:00:00:00 \"GET /home HTTP/1.1\" 200 1024''
      = Inr None) \<and>
   (\<not> well_formed ''10.0.0.1 - - [01/Jan/2024:00:00:00 +0000] GET /home HTTP/1.1 200 1024'' \<and>
    parse_log_line ''10.0.0.1 - - [01/Jan/2024:00:00:00 +0000] GET /home HTTP/1.1 200 1024''
      = Inr None) \<and>
   (\<not> well_formed ''10.0.0.1 - - [01/Jan/2024:00:00:00 +0000] \"GET /home HTTP/1.1\" OK 1024'' \<and>
    parse_log_line ''10.0.0.1 - - [01/Jan/2024:00:00:00 +0000] \"GET /home HTTP/1.1\" OK 1024''
      = Inr None) \<and>
   (\<not> well_formed ''10.0.0.1 - - [01/Jan/2024:00:00:00] \"GET /home HTTP/1.1\" 200'' \<and>
    parse_log_line ''10.0.0.1 - - [01/Jan/2024:00:00:00] \"GET /home HTTP/1.1\" 200''
      = Inr None)"
proof -
  have 1: "\<not> well_formed ''''" using well_formed_nonempty by blast
  have 2: "\<not> well_formed ''10.0.0.1 - - 01/Jan/2024:00:00:00 \"GET /home HTTP/1.1\" 200 1024''"
    using well_formed_brackets[of "''10.0.0.1 - - 01/Jan/2024:00:00:00 \"GET /home HTTP/1.1\" 200 1024''"]
    by auto
  have 3: "\<not> well_formed ''10.0.0.1 - - [01/Jan/2024:00:00:00 +0000] GET /home HTTP/1.1 200 1024''"
    using well_formed_quotes[of "''10.0.0.1 - - [01/Jan/2024:00:00:00 +0000] GET /home HTTP/1.1 200 1024''"]
    by auto
  have "\<not> well_formed (log_line ''10.0.0.1'' ''-'' ''-'' ''01/Jan/2024:00:00:00 +0000'' ''GET''
      ''/home'' ''HTTP/1.1'' ''OK'' ''1024'' [])"
    by (rule nonnumeric_status)
      (simp_all add: token_def stamp_def digits_def is_space_def is_digit_def)
  then have 4: "\<not> well_formed
      ''10.0.0.1 - - [01/Jan/2024:00:00:00 +0000] \"GET /home HTTP/1.1\" OK 1024''"
    by (simp add: log_line_def)
  have 5: "\<not> well_formed ''10.0.0.1 - - [01/Jan/2024:00:00:00] \"GET /home HTTP/1.1\" 200''"
    using well_formed_spaces[of "''10.0.0.1 - - [01/Jan/2024:00:00:00] \"GET /home HTTP/1.1\" 200''"]
    by auto
  show ?thesis
    using 1 2 3 4 5
      parse_log_line_malformed [of "''''"]
      parse_log_line_malformed
        [of "''10.0.0.1 - - 01/Jan/2024:00:00:00 \"GET /home HTTP/1.1\" 200 1024''"]
      parse_log_line_malformed
        [of "''10.0.0.1 - - [01/Jan/2024:00:00:00 +0000] GET /home HTTP/1.1 200 1024''"]
      parse_log_line_malformed
        [of "''10.0.0.1 - - [01/Jan/2024:00:00:00 +0000] \"GET /home HTTP/1.1\" OK 1024''"]
      parse_log_line_malformed
        [of "''10.0.0.1 - - [01/Jan/2024:00:00:00] \"GET /home HTTP/1.1\" 200''"]
    by blast
qed

text \<open>
  C3, as stated: a line whose status is the text of a negative integer would still give a
  record. It gives none.
\<close>

theorem negative_status_no_record:
  "parse_log_line
     ''10.0.0.1 - - [01/Jan/2024:00:00:00 +0000] \"POST /api/data HTTP/1.1\" -404 512''
   = Inr None"
  by code_simp

text \<open>
  C3, amended. A line whose status field is a non-empty run of at most 4300 decimal digits,
  the other fields being well formed, gives a record with that number as its status. The
  same line with a minus sign before the status does not match and gives no record.
\<close>

theorem parse_log_line_status_digits:
  assumes "token a" "token u1" "token u2" "stamp ts" "token m" "token p" "token pr" "token sz"
    "digits st" "nl = [] \<or> nl = [CHR 0x0A]" "length st \<le> int_max_str_digits"
  shows "parse_log_line (log_line a u1 u2 ts m p pr st sz nl)
           = Inr (Some (a, ts, m, p, int (decimal st))) \<and>
         parse_log_line (log_line a u1 u2 ts m p pr (''-'' @ st) sz nl) = Inr None"
  using parse_log_line_fields(2)[OF assms(1-10) assms(11)] parse_log_line_fields(4)[OF assms(1-10)]
  by (rule conjI)

theorem parse_log_line_status_digits_witness:
  "token ''10.0.0.1'' \<and> token ''-'' \<and> stamp ''01/Jan/2024:00:00:00 +0000'' \<and> token ''POST'' \<and>
   token ''/api/data'' \<and> token ''HTTP/1.1'' \<and> token ''512'' \<and>
   digits (replicate 4300 CHR ''9'') \<and>
   length (replicate 4300 CHR ''9'') \<le> int_max_str_digits \<and>
   parse_log_line
     (log_line ''10.0.0.1'' ''-'' ''-'' ''01/Jan/2024:00:00:00 +0000'' ''POST'' ''/api/data''
        ''HTTP/1.1'' (replicate 4300 CHR ''9'') ''512'' [])
     = Inr (Some (''10.0.0.1'', ''01/Jan/2024:00:00:00 +0000'', ''POST'', ''/api/data'',
          int (10 ^ 4300 - 1))) \<and>
   parse_log_line
     (log_line ''10.0.0.1'' ''-'' ''-'' ''01/Jan/2024:00:00:00 +0000'' ''POST'' ''/api/data''
        ''HTTP/1.1'' (''-'' @ replicate 4300 CHR ''9'') ''512'' [])
     = Inr None"
proof -
  have d: "digits (replicate 4300 CHR ''9'')"
    by (rule digits_replicate) (simp_all add: is_digit_def)
  have l: "length (replicate 4300 CHR ''9'') \<le> int_max_str_digits"
    by (simp add: int_max_str_digits_def)
  note r = parse_log_line_status_digits [OF example_tokens d nl_empty l]
  have v: "int (decimal (replicate 4300 CHR ''9'')) = int (10 ^ 4300 - 1)"
    by (simp only: decimal_nines)
  show ?thesis
    using example_tokens d l r[unfolded v] by blast
qed

section \<open>Properties of the coordinator\<close>

lemma concat_get_tasks: "0 < n \<or> xs = [] \<Longrightarrow> concat (get_tasks n xs) = xs"
proof (induction n xs rule: get_tasks.induct)
  case (1 n xs)
  show ?case
  proof (cases "n = 0 \<or> xs = []")
    case True
    then show ?thesis using 1(2) by (subst get_tasks.simps) auto
  next
    case False
    then have "concat (get_tasks n (drop n xs)) = drop n xs" using 1(1) by simp
    then show ?thesis using False by (subst get_tasks.simps) simp
  qed
qed

lemma chunksize_pos: "0 < n \<Longrightarrow> 0 < len \<Longrightarrow> 0 < chunksize n len"
proof -
  assume n: "0 < n" and l: "0 < len"
  show ?thesis
  proof (cases "len mod (n * 4) = 0")
    case True
    then have "n * 4 dvd len" by auto
    then have "n * 4 \<le> len" using l by (simp add: dvd_imp_le)
    then have "0 < len div (n * 4)" using n by (simp add: div_greater_zero_iff)
    then show ?thesis using l True by (simp add: chunksize_def Let_def)
  next
    case False
    then show ?thesis using l by (simp add: chunksize_def Let_def)
  qed
qed

lemma mapstar_append:
  "mapstar f (xs @ ys) =
     (case mapstar f xs of Inl e \<Rightarrow> Inl e
      | Inr a \<Rightarrow> (case mapstar f ys of Inl e \<Rightarrow> Inl e | Inr b \<Rightarrow> Inr (a @ b)))"
  by (induction xs) (auto split: sum.splits)

lemma join_results_mapstar: "join_results (map (mapstar f) cs) = mapstar f (concat cs)"
  by (induction cs) (auto simp: mapstar_append split: sum.splits)

lemma pool_map_mapstar: "0 < n \<Longrightarrow> pool_map n f xs = mapstar f xs"
proof -
  assume n: "0 < n"
  have "0 < chunksize n (length xs) \<or> xs = []"
    using chunksize_pos[OF n, of "length xs"] by auto
  then show ?thesis
    unfolding pool_map_def join_results_mapstar by (simp add: concat_get_tasks)
qed

lemma mapstar_total:
  "(\<And>x. x \<in> set xs \<Longrightarrow> f x = Inr (g x)) \<Longrightarrow> mapstar f xs = Inr (map g xs)"
  by (induction xs) auto

lemma mapstar_raises:
  "x \<in> set xs \<Longrightarrow> f x = Inl e \<Longrightarrow> (\<And>y e'. f y = Inl e' \<Longrightarrow> e' = e) \<Longrightarrow>
     mapstar f xs = Inl e"
proof (induction xs)
  case Nil
  from Nil(1) show ?case by simp
next
  case (Cons y ys)
  show ?case
  proof (cases "f y")
    case (Inl e')
    from Cons.prems(3)[OF Inl] Inl show ?thesis by simp
  next
    case (Inr v)
    then have "x \<noteq> y" using Cons.prems(2) by auto
    then have "x \<in> set ys" using Cons.prems(1) by simp
    then have "mapstar f ys = Inl e" using Cons.IH Cons.prems(2,3) by blast
    then show ?thesis using Inr by simp
  qed
qed

lemma parsed_Some: "\<not> overlong_status line \<Longrightarrow> parsed line \<noteq> None \<longleftrightarrow> well_formed line"
  using parse_None_iff[of line] parse_returns[of line] by auto

lemma length_filter_None:
  "\<forall>l\<in>set ls. \<not> overlong_status l \<Longrightarrow>
     length (filter_None (map parsed ls)) = length (filter well_formed ls)"
proof (induction ls)
  case Nil
  then show ?case by simp
next
  case (Cons l ls)
  then show ?case using parsed_Some[of l] by (cases "parsed l") auto
qed

lemma process_sequential:
  assumes "0 < num_cores" "fs file_path = Some log_lines"
  shows "process_log_data_parallel fs num_cores file_path = parse_sequentially log_lines"
  unfolding process_log_data_parallel_def parse_sequentially_def
  using assms by (simp add: pool_map_mapstar)

lemma sequential_returns:
  assumes "\<forall>l\<in>set log_lines. \<not> overlong_status l"
  shows "\<exists>recs. parse_sequentially log_lines = Inr recs \<and>
           length recs = length (filter well_formed log_lines)"
proof -
  have m: "mapstar parse_log_line log_lines = Inr (map parsed log_lines)"
    by (rule mapstar_total) (use assms parse_returns in blast)
  show ?thesis
    unfolding parse_sequentially_def using assms by (simp add: m length_filter_None)
qed

lemma sequential_raises:
  assumes "\<exists>l\<in>set log_lines. overlong_status l"
  shows "parse_sequentially log_lines = Inl ValueError"
proof -
  from assms obtain l where l: "l \<in> set log_lines" "overlong_status l" by blast
  have "mapstar parse_log_line log_lines = Inl ValueError"
  proof (rule mapstar_raises[OF l(1)])
    show "parse_log_line l = Inl ValueError" using l(2) by (rule overlong_raises)
    show "\<And>y e'. parse_log_line y = Inl e' \<Longrightarrow> e' = ValueError"
      using parse_raises_iff by blast
  qed
  then show ?thesis by (simp add: parse_sequentially_def)
qed

section \<open>Claims about the coordinator\<close>

text \<open>
  C2, as stated: on N lines of which K are in the wire format the coordinator would return
  K records. On a file whose only line is in the wire format with a status of 4301 zeros,
  it raises a \<open>ValueError\<close>.
\<close>

theorem process_log_data_parallel_long_status:
  "process_log_data_parallel
     (single_file ''sample_access.log''
        [log_line ''10.0.0.1'' ''-'' ''-'' ''01/Jan/2024:00:00:00 +0000'' ''POST'' ''/api/data''
           ''HTTP/1.1'' (replicate 4301 CHR ''0'') ''512'' [CHR 0x0A]])
     4 ''sample_access.log''
   = Inl ValueError"
proof -
  let ?l = "log_line ''10.0.0.1'' ''-'' ''-'' ''01/Jan/2024:00:00:00 +0000'' ''POST'' ''/api/data''
           ''HTTP/1.1'' (replicate 4301 CHR ''0'') ''512'' [CHR 0x0A]"
  have d: "digits (replicate 4301 CHR ''0'')"
    by (rule digits_replicate) (simp_all add: is_digit_def)
  have n: "[CHR 0x0A] = [] \<or> [CHR 0x0A] = [CHR 0x0A]" by simp
  have l: "int_max_str_digits < length (replicate 4301 CHR ''0'')"
    by (simp add: int_max_str_digits_def)
  have "overlong_status ?l"
    unfolding overlong_status_def
    using parse_log_line_fields(1)[OF example_tokens d n] l by blast
  then have "parse_sequentially [?l] = Inl ValueError"
    by (intro sequential_raises) simp
  moreover have "process_log_data_parallel (single_file ''sample_access.log'' [?l]) 4
      ''sample_access.log'' = parse_sequentially [?l]"
    by (rule process_sequential) (simp_all add: single_file_def)
  ultimately show ?thesis by simp
qed

text \<open>
  C2, amended. With any positive number of workers, the coordinator does on the lines of
  the file what the parser does when applied to each line in turn. When no line is in the
  wire format with a status of more than 4300 digits, it returns the records in the order
  of the lines, one for each line in the wire format and none for the others; when some
  line is, it raises a \<open>ValueError\<close>.
\<close>

theorem process_log_data_parallel_sequential:
  assumes "0 < num_cores" "fs file_path = Some log_lines"
  shows "process_log_data_parallel fs num_cores file_path = parse_sequentially log_lines \<and>
         ((\<forall>l\<in>set log_lines. \<not> overlong_status l) \<longrightarrow>
            (\<exists>recs. process_log_data_parallel fs num_cores file_path = Inr recs \<and>
               recs = filter_None (map parsed log_lines) \<and>
               length recs = length (filter well_formed log_lines))) \<and>
         ((\<exists>l\<in>set log_lines. overlong_status l) \<longrightarrow>
            process_log_data_parallel fs num_cores file_path = Inl ValueError)"
proof -
  have e: "process_log_data_parallel fs num_cores file_path = parse_sequentially log_lines"
    using assms by (rule process_sequential)
  have "\<exists>recs. parse_sequentially log_lines = Inr recs \<and>
               recs = filter_None (map parsed log_lines) \<and>
               length recs = length (filter well_formed log_lines)"
    if a: "\<forall>l\<in>set log_lines. \<not> overlong_status l"
  proof -
    have m: "mapstar parse_log_line log_lines = Inr (map parsed log_lines)"
      by (rule mapstar_total) (use a parse_returns in blast)
    show ?thesis
      using sequential_returns[OF a] by (simp add: parse_sequentially_def m)
  qed
  then show ?thesis using e sequential_raises[of log_lines] by simp
qed

theorem process_log_data_parallel_sequential_witness:
  "(0::nat) < 3 \<and>
   single_file ''sample_access.log''
     [''10.0.0.1 - - [01/Jan/2024:00:00:00 +0000] \"POST /api/data HTTP/1.1\" 404 512'' @ [CHR 0x0A],
       ''not a log line'' @ [CHR 0x0A],
       ''10.0.0.5 - - [t] \"GET /home HTTP/1.1\" 200 1024'' @ [CHR 0x0A]]
     ''sample_access.log''
    = Some [''10.0.0.1 - - [01/Jan/2024:00:00:00 +0000] \"POST /api/data HTTP/1.1\" 404 512'' @ [CHR 0x0A],
       ''not a log line'' @ [CHR 0x0A],
       ''10.0.0.5 - - [t] \"GET /home HTTP/1.1\" 200 1024'' @ [CHR 0x0A]] \<and>
   process_log_data_parallel
     (single_file ''sample_access.log''
     [''10.0.0.1 - - [01/Jan/2024:00:00:00 +0000] \"POST /api/data HTTP/1.1\" 404 512'' @ [CHR 0x0A],
       ''not a log line'' @ [CHR 0x0A],
       ''10.0.0.5 - - [t] \"GET /home HTTP/1.1\" 200 1024'' @ [CHR 0x0A]])
     3 ''sample_access.log''
    = Inr [(''10.0.0.1'', ''01/Jan/2024:00:00:00 +0000'', ''POST'', ''/api/data'', 404),
           (''10.0.0.5'', ''t'', ''GET'', ''/home'', 200)]"
proof -
  let ?ls = "[''10.0.0.1 - - [01/Jan/2024:00:00:00 +0000] \"POST /api/data HTTP/1.1\" 404 512'' @ [CHR 0x0A],
       ''not a log line'' @ [CHR 0x0A],
       ''10.0.0.5 - - [t] \"GET /home HTTP/1.1\" 200 1024'' @ [CHR 0x0A]]"
  let ?fs = "single_file ''sample_access.log'' ?ls"
  have n: "(0::nat) < 3" by simp
  have f: "?fs ''sample_access.log'' = Some ?ls" by (simp add: single_file_def)
  have s: "parse_sequentially ?ls
    = Inr [(''10.0.0.1'', ''01/Jan/2024:00:00:00 +0000'', ''POST'', ''/api/data'', 404),
           (''10.0.0.5'', ''t'', ''GET'', ''/home'', 200)]"
    by code_simp
  from process_log_data_parallel_sequential
    [where fs = ?fs and file_path = "''sample_access.log''" and log_lines = ?ls, OF n f]
  have "process_log_data_parallel ?fs 3 ''sample_access.log'' = parse_sequentially ?ls"
    by blast
  then show ?thesis using s n f by simp
qed

section \<open>Properties of the store\<close>

subsection \<open>Schema setup\<close>

lemma setup_twice:
  assumes "setup_database db = Inr s"
  shows "setup_database s = Inr s"
    and "''Log_Entries'' \<in> set (tables s)"
    and "''idx_ip'' \<in> fst ` set (indexes s)"
    and "distinct (tables db) \<Longrightarrow> distinct (tables s)"
    and "distinct (map fst (indexes db)) \<Longrightarrow> distinct (map fst (indexes s))"
    and "entries s = entries db"
  using assms
  by (auto simp: setup_database_def create_table_if_not_exists_def
      create_index_if_not_exists_def split: if_splits sum.splits)

lemma setup_empty:
  "setup_database empty_store =
     Inr \<lparr>tables = [''Log_Entries''], indexes = [(''idx_ip'', ''Log_Entries'', ''IP_Address'')],
          entries = [], autoincrement = 0\<rparr>"
  by (simp add: setup_database_def create_table_if_not_exists_def
      create_index_if_not_exists_def empty_store_def)

subsection \<open>The query\<close>

lemma group_keys_set: "set (group_keys rs) = IP_Address ` set rs"
  by (simp add: group_keys_def)

lemma group_keys_distinct: "distinct (group_keys rs)"
  by (simp add: group_keys_def)

lemma sum_list_indicator:
  "distinct ks \<Longrightarrow> sum_list (map (\<lambda>k. if a = k then 1 else 0) ks) = (if a \<in> set ks then 1 else (0::nat))"
  by (induction ks) auto

lemma sum_counts:
  "distinct ks \<Longrightarrow> f ` set rs \<subseteq> set ks \<Longrightarrow>
     sum_list (map (\<lambda>k. length (filter (\<lambda>r. f r = k) rs)) ks) = length rs"
proof (induction rs)
  case Nil
  then show ?case by simp
next
  case (Cons r rs)
  have "sum_list (map (\<lambda>k. length (filter (\<lambda>r. f r = k) (r # rs))) ks)
      = sum_list (map (\<lambda>k. (if f r = k then 1 else 0) + length (filter (\<lambda>r. f r = k) rs)) ks)"
    by (rule arg_cong[where f = sum_list]) auto
  also have "\<dots> = sum_list (map (\<lambda>k. if f r = k then 1 else 0) ks)
      + sum_list (map (\<lambda>k. length (filter (\<lambda>r. f r = k) rs)) ks)"
    by (rule sum_list_addf)
  also have "\<dots> = 1 + length rs"
    using Cons by (simp add: sum_list_indicator)
  finally show ?case by simp
qed

lemma group_by_ip_sum: "sum_list (map snd (group_by_ip rs)) = length rs"
proof -
  have "map snd (group_by_ip rs) = map (\<lambda>k. length (filter (\<lambda>r. IP_Address r = k) rs)) (group_keys rs)"
    by (simp add: group_by_ip_def request_count_def comp_def)
  then show ?thesis
    using sum_counts[OF group_keys_distinct, of IP_Address rs rs]
    by (simp add: group_keys_set)
qed

lemma order_by_sum: "sum_list (map snd (order_by_count_desc gs)) = sum_list (map snd gs)"
proof -
  have "mset (map snd (order_by_count_desc gs)) = mset (map snd gs)"
    by (simp add: order_by_count_desc_def)
  then have "sum_mset (mset (map snd (order_by_count_desc gs))) = sum_mset (mset (map snd gs))"
    by (rule arg_cong)
  then show ?thesis by (simp only: sum_mset_sum_list)
qed

lemma take_sum_le: "sum_list (map snd (take n gs)) \<le> sum_list (map (snd :: _ \<Rightarrow> nat) gs)"
proof -
  have "sum_list (map snd gs) = sum_list (map snd (take n gs @ drop n gs))" by simp
  also have "\<dots> = sum_list (map snd (take n gs)) + sum_list (map snd (drop n gs))"
    by (simp only: map_append sum_list_append)
  finally show ?thesis by linarith
qed

lemma length_group_by_ip: "length (group_by_ip rs) = card (IP_Address ` set rs)"
  using distinct_card[OF group_keys_distinct, of rs]
  by (simp add: group_by_ip_def group_keys_set)

lemma query_sum:
  assumes "top_ips_query conn = Inr res"
  shows "sum_list (map snd res) \<le> length (entries conn)"
    and "card (IP_Address ` set (entries conn)) \<le> 10 \<Longrightarrow>
           sum_list (map snd res) = length (entries conn)"
proof -
  have res: "res = take 10 (order_by_count_desc (group_by_ip (entries conn)))"
    using assms by (simp add: top_ips_query_def split: if_splits)
  show "sum_list (map snd res) \<le> length (entries conn)"
    unfolding res using take_sum_le[of 10 "order_by_count_desc (group_by_ip (entries conn))"]
    by (simp add: order_by_sum group_by_ip_sum)
  assume "card (IP_Address ` set (entries conn)) \<le> 10"
  then have "length (order_by_count_desc (group_by_ip (entries conn))) \<le> 10"
    by (simp add: order_by_count_desc_def length_group_by_ip)
  then show "sum_list (map snd res) = length (entries conn)"
    unfolding res by (simp add: order_by_sum group_by_ip_sum)
qed





subsection \<open>Bulk load\<close>

lemma insert_row_ok:
  assumes "insert_row s rec = Inr s'"
  shows "tables s' = tables s"
    and "map IP_Address (entries s') = map IP_Address (entries s) @ [fst rec]"
  using assms by (auto simp: insert_row_def split: prod.splits if_splits)

lemma executemany_ok:
  "executemany s recs = Inr s' \<Longrightarrow>
     tables s' = tables s \<and>
     map IP_Address (entries s') = map IP_Address (entries s) @ map fst recs"
proof (induction recs arbitrary: s)
  case Nil
  then show ?case by simp
next
  case (Cons r recs)
  from Cons.prems obtain s1 where 1: "insert_row s r = Inr s1" and 2: "executemany s1 recs = Inr s'"
    by (auto split: sum.splits)
  from Cons.IH[OF 2] insert_row_ok[OF 1] show ?case by simp
qed

lemma executemany_succeeds:
  "\<forall>r\<in>set recs. fits_int64 r \<Longrightarrow> \<exists>s'. executemany s recs = Inr s'"
proof (induction recs arbitrary: s)
  case Nil
  then show ?case by simp
next
  case (Cons r recs)
  then have "fits_int64 r" by simp
  then obtain s1 where 1: "insert_row s r = Inr s1"
    by (auto simp: insert_row_def fits_int64_def split: prod.splits)
  from Cons.IH[of s1] Cons.prems obtain s' where "executemany s1 recs = Inr s'" by auto
  then show ?case using 1 by simp
qed

lemma load_then_aggregate_sum:
  assumes "\<forall>r\<in>set parsed_data. fits_int64 r"
  shows "\<exists>res. load_then_aggregate parsed_data = Inr res \<and>
           sum_list (map snd res) \<le> length parsed_data \<and>
           (card (fst ` set parsed_data) \<le> 10 \<longrightarrow> sum_list (map snd res) = length parsed_data)"
proof -
  let ?conn = "\<lparr>tables = [''Log_Entries''],
      indexes = [(''idx_ip'', ''Log_Entries'', ''IP_Address'')],
      entries = [], autoincrement = 0\<rparr>"
  from executemany_succeeds[OF assms, of ?conn] obtain s' where
    e: "executemany ?conn parsed_data = Inr s'" by blast
  from executemany_ok[OF e] have t: "tables s' = [''Log_Entries'']"
    and ips: "map IP_Address (entries s') = map fst parsed_data" by simp_all
  have b: "bulk_load_data ?conn parsed_data = Inr s'"
    using e by (simp add: bulk_load_data_def)
  obtain res where q: "top_ips_query s' = Inr res"
    using t by (simp add: top_ips_query_def)
  have l: "load_then_aggregate parsed_data = Inr res"
    unfolding load_then_aggregate_def setup_empty using b q by simp
  have len: "length (entries s') = length parsed_data"
    using arg_cong[OF ips, of length] by simp
  have "IP_Address ` set (entries s') = fst ` set parsed_data"
    using arg_cong[OF ips, of set] by simp
  then show ?thesis using l query_sum[OF q] len by auto
qed


section \<open>Claims about the store\<close>

text \<open>
  C7. Schema setup is idempotent: when a run of \<open>setup_database\<close> has succeeded, a second
  run on the resulting store succeeds too and leaves it as it is, with the table and the
  index present; no table name and no index name is duplicated, and the rows are untouched.
\<close>

theorem setup_database_idempotent:
  assumes "setup_database db = Inr s"
  shows "setup_database s = Inr s \<and>
         ''Log_Entries'' \<in> set (tables s) \<and> ''idx_ip'' \<in> fst ` set (indexes s) \<and>
         (distinct (tables db) \<longrightarrow> distinct (tables s)) \<and>
         (distinct (map fst (indexes db)) \<longrightarrow> distinct (map fst (indexes s))) \<and>
         entries s = entries db"
  using setup_twice[OF assms] by simp

theorem setup_database_idempotent_witness:
  "setup_database empty_store =
     Inr \<lparr>tables = [''Log_Entries''], indexes = [(''idx_ip'', ''Log_Entries'', ''IP_Address'')],
          entries = [], autoincrement = 0\<rparr> \<and>
   setup_database
     \<lparr>tables = [''Log_Entries''], indexes = [(''idx_ip'', ''Log_Entries'', ''IP_Address'')],
      entries = [], autoincrement = 0\<rparr> =
     Inr \<lparr>tables = [''Log_Entries''], indexes = [(''idx_ip'', ''Log_Entries'', ''IP_Address'')],
          entries = [], autoincrement = 0\<rparr>"
  using setup_database_idempotent [OF setup_empty] setup_empty by simp



text \<open>
  C4, as stated: the counts returned after loading M records into a fresh store would sum
  to M. Eleven records with eleven different addresses give ten groups of one row.
\<close>

theorem load_then_aggregate_eleven:
  "load_then_aggregate
     [(''10.0.0.1'', ''t'', ''GET'', ''/'', 200), (''10.0.0.2'', ''t'', ''GET'', ''/'', 200),
      (''10.0.0.3'', ''t'', ''GET'', ''/'', 200), (''10.0.0.4'', ''t'', ''GET'', ''/'', 200),
      (''10.0.0.5'', ''t'', ''GET'', ''/'', 200), (''10.0.0.6'', ''t'', ''GET'', ''/'', 200),
      (''10.0.0.7'', ''t'', ''GET'', ''/'', 200), (''10.0.0.8'', ''t'', ''GET'', ''/'', 200),
      (''10.0.0.9'', ''t'', ''GET'', ''/'', 200), (''10.0.0.10'', ''t'', ''GET'', ''/'', 200),
      (''10.0.0.11'', ''t'', ''GET'', ''/'', 200)]
   = Inr [(''10.0.0.1'', 1), (''10.0.0.10'', 1), (''10.0.0.11'', 1), (''10.0.0.2'', 1),
          (''10.0.0.3'', 1), (''10.0.0.4'', 1), (''10.0.0.5'', 1), (''10.0.0.6'', 1),
          (''10.0.0.7'', 1), (''10.0.0.8'', 1)] \<and>
   sum_list (map snd
         [(''10.0.0.1'', 1::nat), (''10.0.0.10'', 1), (''10.0.0.11'', 1), (''10.0.0.2'', 1),
          (''10.0.0.3'', 1), (''10.0.0.4'', 1), (''10.0.0.5'', 1), (''10.0.0.6'', 1),
          (''10.0.0.7'', 1), (''10.0.0.8'', 1)]) = 10 \<and>
   length
     [(''10.0.0.1'', ''t'', ''GET'', ''/'', 200::int), (''10.0.0.2'', ''t'', ''GET'', ''/'', 200),
      (''10.0.0.3'', ''t'', ''GET'', ''/'', 200), (''10.0.0.4'', ''t'', ''GET'', ''/'', 200),
      (''10.0.0.5'', ''t'', ''GET'', ''/'', 200), (''10.0.0.6'', ''t'', ''GET'', ''/'', 200),
      (''10.0.0.7'', ''t'', ''GET'', ''/'', 200), (''10.0.0.8'', ''t'', ''GET'', ''/'', 200),
      (''10.0.0.9'', ''t'', ''GET'', ''/'', 200), (''10.0.0.10'', ''t'', ''GET'', ''/'', 200),
      (''10.0.0.11'', ''t'', ''GET'', ''/'', 200)] = 11"
  by code_simp

text \<open>
  C4, amended. For records whose status fits a 64-bit signed integer, loading them into a
  freshly set-up empty store and running the aggregation query gives counts that sum to at
  most the number of records, and to exactly that number when the records have at most ten
  different addresses.
\<close>

theorem load_then_aggregate_counts:
  assumes "\<forall>r\<in>set parsed_data. fits_int64 r"
  shows "\<exists>res. load_then_aggregate parsed_data = Inr res \<and>
           sum_list (map snd res) \<le> length parsed_data \<and>
           (card (fst ` set parsed_data) \<le> 10 \<longrightarrow> sum_list (map snd res) = length parsed_data)"
  using assms by (rule load_then_aggregate_sum)

theorem load_then_aggregate_counts_witness:
  "fits_int64 (''10.0.0.1'', ''t'', ''GET'', ''/'', 200) \<and>
   fits_int64 (''10.0.0.5'', ''t'', ''GET'', ''/'', 404) \<and>
   fits_int64 (''10.0.0.5'', ''t'', ''GET'', ''/home'', 200) \<and>
   load_then_aggregate
     [(''10.0.0.1'', ''t'', ''GET'', ''/'', 200), (''10.0.0.5'', ''t'', ''GET'', ''/'', 404),
      (''10.0.0.5'', ''t'', ''GET'', ''/home'', 200)]
     = Inr [(''10.0.0.5'', 2), (''10.0.0.1'', 1)] \<and>
   sum_list (map snd [(''10.0.0.5'', 2::nat), (''10.0.0.1'', 1)]) = 3"
proof -
  let ?recs = "[(''10.0.0.1'', ''t'', ''GET'', ''/'', 200::int), (''10.0.0.5'', ''t'', ''GET'', ''/'', 404),
      (''10.0.0.5'', ''t'', ''GET'', ''/home'', 200)]"
  have h: "\<forall>r\<in>set ?recs. fits_int64 r" by (simp add: fits_int64_def)
  have v: "load_then_aggregate ?recs = Inr [(''10.0.0.5'', 2), (''10.0.0.1'', 1)]"
    by code_simp
  from load_then_aggregate_counts [OF h] obtain res where
    r: "load_then_aggregate ?recs = Inr res" "sum_list (map snd res) \<le> length ?recs" by blast
  from r(1) v have "res = [(''10.0.0.5'', 2), (''10.0.0.1'', 1)]" by simp
  then show ?thesis using h v by simp
qed

text \<open>
  C8, as stated: a failing query would reach the caller as an error. With no table, the
  function prints a message and returns normally, as it does on an empty table.
\<close>

theorem run_optimized_analysis_missing_table:
  "run_optimized_analysis ''0.0001'' empty_store =
     ([[CHR 0x0A] @ ''--- Running Optimized Analysis (Algorithms) ---'',
       ''Error executing analysis query: no such table: Log_Entries. Ensure the database is loaded.''],
      Inr ()) \<and>
   snd (run_optimized_analysis ''0.0001''
      \<lparr>tables = [''Log_Entries''], indexes = [(''idx_ip'', ''Log_Entries'', ''IP_Address'')],
       entries = [], autoincrement = 0\<rparr>) = Inr ()"
  by (simp add: run_optimized_analysis_def top_ips_query_def empty_store_def)

text \<open>
  C8, amended. \<open>run_optimized_analysis\<close> always returns normally. When the query fails
  with an \<open>OperationalError\<close>, as it does when the table was never set up, the error is
  caught and reported on the console by the line \<open>Error executing analysis query: ...\<close>;
  when it succeeds, the console shows the elapsed time, the heading and one line per
  address. The two outcomes differ in the console output only.
\<close>

theorem run_optimized_analysis_outcome:
  "snd (run_optimized_analysis elapsed conn) = Inr () \<and>
   (\<forall>e. top_ips_query conn = Inl (OperationalError e) \<longrightarrow>
      fst (run_optimized_analysis elapsed conn) =
        [[CHR 0x0A] @ ''--- Running Optimized Analysis (Algorithms) ---'',
         ''Error executing analysis query: '' @ e @ ''. Ensure the database is loaded.'']) \<and>
   (\<forall>top_ips. top_ips_query conn = Inr top_ips \<longrightarrow>
      fst (run_optimized_analysis elapsed conn) =
        [[CHR 0x0A] @ ''--- Running Optimized Analysis (Algorithms) ---'',
         ''Analysis Time: '' @ elapsed @ '' seconds'',
         [CHR 0x0A] @ ''TOP 10 MOST FREQUENT IP ADDRESSES:''] @
        map (\<lambda>(ip, count). ''- '' @ ip @ '': '' @ str_nat count @ '' requests'') top_ips)"
  by (auto simp: run_optimized_analysis_def top_ips_query_def Let_def split: sum.splits error.splits)

theorem run_optimized_analysis_outcome_witness:
  "top_ips_query empty_store = Inl (OperationalError ''no such table: Log_Entries'') \<and>
   snd (run_optimized_analysis ''0.0001'' empty_store) = Inr () \<and>
   fst (run_optimized_analysis ''0.0001'' empty_store) =
     [[CHR 0x0A] @ ''--- Running Optimized Analysis (Algorithms) ---'',
      ''Error executing analysis query: no such table: Log_Entries. Ensure the database is loaded.'']"
proof -
  have q: "top_ips_query empty_store = Inl (OperationalError ''no such table: Log_Entries'')"
    by (simp add: top_ips_query_def empty_store_def)
  show ?thesis
    using run_optimized_analysis_outcome [of "''0.0001''" empty_store] q by simp
qed


end
